theory Spec2Isabelle
  imports Complex_Main
begin

section \<open>The job-processing queue of the video downloader\<close>

text \<open>
  The development embeds the class \<open>VideoProcessingQueue\<close> of the library module
  (\<open>addJob\<close>, \<open>getJob\<close>, \<open>getAllJobs\<close>, \<open>processNextJob\<close>, \<open>processJob\<close>,
  \<open>simulateDownloadProgress\<close>) and the \<open>GET\<close> handler of the status route.

  The TypeScript runs on a single-threaded event loop. A call runs without interruption
  until it reaches an \<open>await\<close> on a timer; the continuation then runs as a later task
  of the loop. The model therefore is a transition system whose steps are exactly these
  uninterrupted segments: a call of \<open>addJob\<close>, a firing of a
  \<open>setTimeout(() => this.processNextJob(), 100)\<close> timer, and the resumption of one
  suspended \<open>processNextJob\<close>/\<open>processJob\<close> activation. The delays themselves are not
  modelled: any interleaving of the enabled segments is an execution of the model.

  Job records are JavaScript objects, which the code both mutates in place and copies
  (\<open>{ ...job }\<close>). They live in an explicit store, \<open>heap\<close>, and the registry
  \<open>Map<string, ProcessingJob>\<close> maps an identifier to the address of an object.
\<close>

subsection \<open>Data model\<close>

record VideoMetadata =
  title :: string
  description :: "string option"
  duration :: nat
  thumbnail :: string
  uploader :: string
  uploadDate :: string
  viewCount :: "nat option"
  likeCount :: "nat option"

record DownloadOptions =
  quality :: string
  format :: string
  audioOnly :: bool
  removeWatermark :: bool

text \<open>The union type of \<open>ProcessingProgress["stage"]\<close>.\<close>

datatype stage =
  StageAnalyzing | StageDownloading | StageProcessing | StageConverting | StageFinalizing

text \<open>
  \<open>ProcessingProgress\<close>. Its numeric field is called \<open>progress\<close> in the source, like
  the field of the job that holds the whole snapshot; here the number is \<open>percent\<close>.
  JavaScript numbers are doubles; every value the queue computes in an execution is a
  multiple of \<open>1/2\<close> below \<open>2^53\<close>, which a double holds exactly, so \<open>real\<close> is
  used.
\<close>

record ProcessingProgress =
  stage :: stage
  percent :: real
  message :: string
  estimatedTimeRemaining :: "real option"

text \<open>The union type of \<open>ProcessingJob["status"]\<close>.\<close>

datatype status = StatusQueued | StatusProcessing | StatusCompleted | StatusFailed

record JobResult =
  filePath :: string
  metadata :: VideoMetadata
  downloadUrl :: string

text \<open>
  \<open>ProcessingJob\<close>; the field \<open>id\<close> is \<open>job_id\<close>. A \<open>Date\<close> is its number of
  milliseconds.
\<close>

record ProcessingJob =
  job_id :: string
  url :: string
  settings :: DownloadOptions
  status :: status
  progress :: ProcessingProgress
  result :: "JobResult option"
  error :: "string option"
  createdAt :: nat
  completedAt :: "nat option"

subsection \<open>Strings\<close>

text \<open>
  A whole number in a template literal. \<open>decimal_digits n acc\<close> puts the decimal digits
  of \<open>n\<close>, most significant first, in front of \<open>acc\<close>. (JavaScript prints an exponent
  from \<open>10^21\<close> on; no clock reading and no percentage gets there.)
\<close>

definition digit_char :: "nat \<Rightarrow> char" where
  "digit_char d = ''0123456789'' ! d"

function decimal_digits :: "nat \<Rightarrow> nat list \<Rightarrow> nat list" where
  "decimal_digits n acc =
     (if n < 10 then n # acc else decimal_digits (n div 10) (n mod 10 # acc))"
  by pat_completeness auto
termination
  by (relation "measure fst") auto

declare decimal_digits.simps [simp del]

definition number_string :: "nat \<Rightarrow> string" where
  "number_string n = map digit_char (decimal_digits n [])"

definition integer_string :: "int \<Rightarrow> string" where
  "integer_string i =
     (if 0 \<le> i then number_string (nat i) else CHR ''-'' # number_string (nat (- i)))"

text \<open>\<open>Math.round\<close>: the nearest integer, a half rounded up.\<close>

definition Math_round :: "real \<Rightarrow> int" where
  "Math_round x = \<lfloor>x + 1 / 2\<rfloor>"

text \<open>\<open>String.prototype.toUpperCase\<close>, on the ASCII letters.\<close>

definition upper_char :: "char \<Rightarrow> char" where
  "upper_char c =
     (case map_of (zip ''abcdefghijklmnopqrstuvwxyz'' ''ABCDEFGHIJKLMNOPQRSTUVWXYZ'') c of
        None \<Rightarrow> c
      | Some u \<Rightarrow> u)"

definition toUpperCase :: "string \<Rightarrow> string" where
  "toUpperCase s = map upper_char s"

text \<open>
  \<open>Buffer.from(s).toString("base64url")\<close>: the bytes of the string in groups of three,
  each group as four characters of the URL-safe alphabet, without padding.
\<close>

definition base64url_alphabet :: string where
  "base64url_alphabet =
     ''ABCDEFGHIJKLMNOPQRSTUVWXYZabcdefghijklmnopqrstuvwxyz0123456789-_''"

definition sextet :: "nat \<Rightarrow> char" where
  "sextet n = base64url_alphabet ! (n mod 64)"

fun base64url_bytes :: "nat list \<Rightarrow> string" where
  "base64url_bytes (a # b # c # rest) =
     [sextet (a div 4), sextet ((a mod 4) * 16 + b div 16),
      sextet ((b mod 16) * 4 + c div 64), sextet (c mod 64)] @ base64url_bytes rest"
| "base64url_bytes [a, b] =
     [sextet (a div 4), sextet ((a mod 4) * 16 + b div 16), sextet ((b mod 16) * 4)]"
| "base64url_bytes [a] = [sextet (a div 4), sextet ((a mod 4) * 16)]"
| "base64url_bytes [] = []"

definition base64url :: "string \<Rightarrow> string" where
  "base64url s = base64url_bytes (map of_char s)"

subsection \<open>The queue and its store\<close>

type_synonym addr = nat

text \<open>
  Where a suspended activation of \<open>processNextJob\<close> will continue: the \<open>await\<close> it
  stopped at, with the local variables that are live there (\<open>metadata\<close>, and inside
  \<open>simulateDownloadProgress\<close> its two parameters and the loop counter).
\<close>

datatype pc =
  AwaitAnalyze
| AwaitExtract
| AwaitDownload VideoMetadata real real nat
| AwaitWatermark VideoMetadata
| AwaitConvert VideoMetadata
| AwaitFinalize VideoMetadata

text \<open>
  The state of the singleton. \<open>heap\<close> and \<open>next_addr\<close> are the object store; \<open>jobs\<close>
  is the \<open>Map\<close>, in insertion order; \<open>activeJobs\<close> is the \<open>Set\<close>, in insertion
  order; \<open>timers\<close> counts the pending \<open>setTimeout(() => this.processNextJob(), 100)\<close>
  calls; \<open>tasks\<close> holds the suspended activations, keyed by the address of their
  \<open>queuedJob\<close>. \<open>progress_log\<close> is a history variable: every assignment to a
  \<open>progress\<close> field, with the address of the object assigned to, oldest first.
\<close>

record VideoProcessingQueue =
  heap :: "addr \<Rightarrow> ProcessingJob option"
  next_addr :: addr
  jobs :: "(string \<times> addr) list"
  activeJobs :: "string list"
  maxConcurrentJobs :: nat
  timers :: nat
  tasks :: "addr \<Rightarrow> pc option"
  progress_log :: "(addr \<times> ProcessingProgress) list"

text \<open>The field initialisers of the class.\<close>

definition new_queue :: VideoProcessingQueue where
  "new_queue =
     \<lparr>heap = Map.empty, next_addr = 0, jobs = [], activeJobs = [], maxConcurrentJobs = 3,
      timers = 0, tasks = Map.empty, progress_log = []\<rparr>"

text \<open>
  \<open>Map.prototype.set\<close>: an existing key keeps its place and gets the new value, a new key
  goes to the end. \<open>Map.prototype.get\<close> is \<open>map_of\<close>.
\<close>

fun map_set :: "string \<Rightarrow> addr \<Rightarrow> (string \<times> addr) list \<Rightarrow> (string \<times> addr) list" where
  "map_set k v [] = [(k, v)]"
| "map_set k v ((k', v') # m) =
     (if k' = k then (k, v) # m else (k', v') # map_set k v m)"

text \<open>\<open>Set.prototype.add\<close> and \<open>Set.prototype.delete\<close>; \<open>size\<close> is \<open>length\<close>.\<close>

definition set_add :: "string \<Rightarrow> string list \<Rightarrow> string list" where
  "set_add x xs = (if x \<in> set xs then xs else xs @ [x])"

definition set_delete :: "string \<Rightarrow> string list \<Rightarrow> string list" where
  "set_delete x xs = removeAll x xs"

subsection \<open>The texts\<close>

text \<open>The string literals and template literals of the queue, each under a name.\<close>

definition queued_message :: string where
  "queued_message = ''Job queued for processing''"

definition analyzing_message :: string where
  "analyzing_message = ''Analyzing video URL and extracting metadata...''"

definition downloading_message :: string where
  "downloading_message = ''Downloading video content...''"

definition substep_message :: "real \<Rightarrow> string" where
  "substep_message currentProgress =
     ''Downloading... '' @ integer_string (Math_round currentProgress) @ ''%''"

definition watermark_message :: string where
  "watermark_message = ''Removing watermarks...''"

definition converting_message :: "string \<Rightarrow> string" where
  "converting_message fmt = ''Converting to '' @ toUpperCase fmt @ ''...''"

definition finalizing_message :: string where
  "finalizing_message = ''Finalizing download...''"

definition completed_message :: string where
  "completed_message = ''Download completed successfully!''"

definition extract_error_message :: string where
  "extract_error_message = ''Failed to extract video metadata''"

definition invalid_url_message :: string where
  "invalid_url_message = ''Invalid URL''"

definition download_path :: "nat \<Rightarrow> string \<Rightarrow> string" where
  "download_path now fmt = ''/tmp/downloads/video_'' @ number_string now @ ''.'' @ fmt"

definition download_url :: "string \<Rightarrow> string \<Rightarrow> string" where
  "download_url jid fmt =
     ''/api/download/file?id='' @ base64url jid @ ''&format='' @ fmt"

subsection \<open>addJob, getJob, getAllJobs\<close>

text \<open>
  The identifier is \<open>job_${Date.now()}_${Math.random().toString(36).substr(2, 9)}\<close>.
  The clock reading \<open>now\<close> and the random suffix \<open>rnd\<close> come from the environment.
\<close>

definition make_job_id :: "nat \<Rightarrow> string \<Rightarrow> string" where
  "make_job_id now rnd = ''job_'' @ number_string now @ ''_'' @ rnd"

definition initial_progress :: ProcessingProgress where
  "initial_progress =
     \<lparr>stage = StageAnalyzing, percent = 0, message = queued_message,
      estimatedTimeRemaining = None\<rparr>"

text \<open>
  \<open>addJob(url, settings)\<close>, with the readings of \<open>Date.now()\<close>, \<open>Math.random()\<close> and
  \<open>new Date()\<close>. It returns the identifier and the new state; \<open>processNextJob\<close> is only
  scheduled.
\<close>

definition addJob ::
  "string \<Rightarrow> DownloadOptions \<Rightarrow> nat \<Rightarrow> string \<Rightarrow> nat \<Rightarrow> VideoProcessingQueue \<Rightarrow>
   string \<times> VideoProcessingQueue" where
  "addJob u s now rnd date q =
     (let jobId = make_job_id now rnd;
          job = \<lparr>job_id = jobId, url = u, settings = s, status = StatusQueued,
                 progress = initial_progress, result = None, error = None,
                 createdAt = date, completedAt = None\<rparr>;
          a = next_addr q
      in (jobId,
          q\<lparr>heap := (heap q)(a \<mapsto> job), next_addr := Suc a,
            jobs := map_set jobId a (jobs q), timers := Suc (timers q),
            progress_log := progress_log q @ [(a, initial_progress)]\<rparr>))"

text \<open>\<open>getJob\<close>: the object the registry holds for the identifier, or \<open>undefined\<close>.\<close>

definition getJob :: "VideoProcessingQueue \<Rightarrow> string \<Rightarrow> ProcessingJob option" where
  "getJob q k = (case map_of (jobs q) k of None \<Rightarrow> None | Some a \<Rightarrow> heap q a)"

text \<open>\<open>Array.from(this.jobs.values())\<close>.\<close>

definition job_values :: "VideoProcessingQueue \<Rightarrow> ProcessingJob list" where
  "job_values q = List.map_filter (\<lambda>(k, a). heap q a) (jobs q)"

text \<open>\<open>getAllJobs\<close>: the values, latest \<open>createdAt\<close> first (the sort is stable).\<close>

definition getAllJobs :: "VideoProcessingQueue \<Rightarrow> ProcessingJob list" where
  "getAllJobs q = sort_key (\<lambda>j. - int (createdAt j)) (job_values q)"

subsection \<open>The environment of an execution\<close>

text \<open>
  What a resumed activation reads from outside the queue: whether \<open>new URL(url)\<close>
  accepts a string (it throws a \<open>TypeError\<close> otherwise), the record that
  \<open>generateMockMetadata\<close> draws with \<open>Math.random\<close>, and the readings of \<open>Date.now()\<close>
  and \<open>new Date()\<close>.
\<close>

record extern =
  url_parses :: "string \<Rightarrow> bool"
  mock_metadata :: VideoMetadata
  clock_now :: nat
  clock_date :: nat

text \<open>
  \<open>VideoProcessor.extractMetadata\<close>: \<open>detectPlatform\<close> parses the URL inside the
  \<open>try\<close>; the \<open>catch\<close> turns its exception into \<open>null\<close>.
\<close>

definition extractMetadata :: "extern \<Rightarrow> string \<Rightarrow> VideoMetadata option" where
  "extractMetadata x u = (if url_parses x u then Some (mock_metadata x) else None)"

text \<open>
  \<open>VideoProcessor.downloadVideo\<close>: \<open>detectPlatform\<close> parses the URL outside any
  \<open>try\<close>, so the promise is rejected with the \<open>TypeError\<close> (\<open>Inl\<close> its message) when
  the URL does not parse; otherwise the path \<open>/tmp/downloads/video_${Date.now()}.${format}\<close>.
\<close>

definition downloadVideo :: "extern \<Rightarrow> string \<Rightarrow> DownloadOptions \<Rightarrow> string + string" where
  "downloadVideo x u opts =
     (if url_parses x u
      then Inr (download_path (clock_now x) (format opts))
      else Inl invalid_url_message)"

subsection \<open>processJob\<close>

text \<open>An assignment to fields of the object at an address.\<close>

definition modify ::
  "addr \<Rightarrow> (ProcessingJob \<Rightarrow> ProcessingJob) \<Rightarrow> VideoProcessingQueue \<Rightarrow> VideoProcessingQueue" where
  "modify a f q = (case heap q a of None \<Rightarrow> q | Some job \<Rightarrow> q\<lparr>heap := (heap q)(a \<mapsto> f job)\<rparr>)"

text \<open>
  The closure \<open>updateProgress\<close> of \<open>processJob\<close>, for the \<open>job\<close> at address \<open>a\<close>:
  \<open>job.progress = { stage, progress, message }\<close>, then
  \<open>this.jobs.set(job.id, { ...job })\<close>. The spread allocates a new object with the
  fields of \<open>job\<close>, and the registry entry of the identifier is made to point to it.
\<close>

definition updateProgress ::
  "addr \<Rightarrow> stage \<Rightarrow> real \<Rightarrow> string \<Rightarrow> VideoProcessingQueue \<Rightarrow> VideoProcessingQueue" where
  "updateProgress a st p msg q =
     (case heap q a of
        None \<Rightarrow> q
      | Some job \<Rightarrow>
          let pr = \<lparr>stage = st, percent = p, message = msg, estimatedTimeRemaining = None\<rparr>;
              job' = job\<lparr>progress := pr\<rparr>;
              c = next_addr q
          in q\<lparr>heap := (heap q)(a \<mapsto> job', c \<mapsto> job'), next_addr := Suc c,
               jobs := map_set (job_id job') c (jobs q),
               progress_log := progress_log q @ [(a, pr)]\<rparr>)"

text \<open>
  The snapshot that iteration \<open>i\<close> of the loop of
  \<open>simulateDownloadProgress(job, startProgress, endProgress)\<close> builds. The only call
  passes 30 and 60, for which the division and the products are exact in doubles.
\<close>

definition download_snapshot :: "real \<Rightarrow> real \<Rightarrow> nat \<Rightarrow> ProcessingProgress" where
  "download_snapshot startProgress endProgress i =
     (let steps = 10;
          progressIncrement = (endProgress - startProgress) / steps;
          currentProgress = startProgress + progressIncrement * real i;
          remainingSteps = steps - real i;
          estimatedTime = remainingSteps * 0.5
      in \<lparr>stage = StageDownloading, percent = currentProgress,
          message = substep_message currentProgress,
          estimatedTimeRemaining = Some estimatedTime\<rparr>)"

text \<open>
  The body of iteration \<open>i\<close> up to its \<open>await\<close>: the snapshot is assigned to
  \<open>job.progress\<close>; the registry is not touched.
\<close>

definition simulate_iteration ::
  "addr \<Rightarrow> real \<Rightarrow> real \<Rightarrow> nat \<Rightarrow> VideoProcessingQueue \<Rightarrow> VideoProcessingQueue" where
  "simulate_iteration a startProgress endProgress i q =
     (let pr = download_snapshot startProgress endProgress i;
          q1 = modify a (\<lambda>j. j\<lparr>progress := pr\<rparr>) q
      in q1\<lparr>progress_log := progress_log q1 @ [(a, pr)]\<rparr>)"

text \<open>
  How a segment of \<open>processJob\<close> ends: at the next \<open>await\<close>, by returning, or by
  throwing an \<open>Error\<close> with a message.
\<close>

datatype step_result =
  Suspend pc VideoProcessingQueue
| Return VideoProcessingQueue
| Throw string VideoProcessingQueue

text \<open>Stage 4 of \<open>processJob\<close>, up to its \<open>await\<close>.\<close>

definition stage_converting ::
  "addr \<Rightarrow> ProcessingJob \<Rightarrow> VideoMetadata \<Rightarrow> VideoProcessingQueue \<Rightarrow> step_result" where
  "stage_converting a job m q =
     Suspend (AwaitConvert m)
       (updateProgress a StageConverting 80
          (converting_message (format (settings job))) q)"

text \<open>
  The first segment of \<open>processJob(job)\<close>: stage 1 up to the \<open>await\<close> of one second,
  where it is suspended (\<open>AwaitAnalyze\<close>). Nothing in it can throw.
\<close>

definition processJob_start :: "addr \<Rightarrow> VideoProcessingQueue \<Rightarrow> VideoProcessingQueue" where
  "processJob_start a q = updateProgress a StageAnalyzing 10 analyzing_message q"

text \<open>
  The segment of \<open>processJob\<close> that follows the \<open>await\<close> named by the \<open>pc\<close>. \<open>job\<close>
  is the object at \<open>a\<close> as the segment finds it; the segment reads from it only
  \<open>id\<close>, \<open>url\<close> and \<open>settings\<close>, which nothing assigns to.
\<close>

fun processJob_step ::
  "extern \<Rightarrow> addr \<Rightarrow> ProcessingJob \<Rightarrow> pc \<Rightarrow> VideoProcessingQueue \<Rightarrow> step_result" where
  "processJob_step x a job AwaitAnalyze q = Suspend AwaitExtract q"
| "processJob_step x a job AwaitExtract q =
     (case extractMetadata x (url job) of
        None \<Rightarrow> Throw extract_error_message q
      | Some m \<Rightarrow>
          Suspend (AwaitDownload m 30 60 0)
            (simulate_iteration a 30 60 0
               (updateProgress a StageDownloading 30 downloading_message q)))"
| "processJob_step x a job (AwaitDownload m startProgress endProgress i) q =
     (if Suc i < 10
      then Suspend (AwaitDownload m startProgress endProgress (Suc i))
             (simulate_iteration a startProgress endProgress (Suc i) q)
      else if removeWatermark (settings job)
      then Suspend (AwaitWatermark m)
             (updateProgress a StageProcessing 65 watermark_message q)
      else stage_converting a job m q)"
| "processJob_step x a job (AwaitWatermark m) q = stage_converting a job m q"
| "processJob_step x a job (AwaitConvert m) q =
     Suspend (AwaitFinalize m)
       (updateProgress a StageFinalizing 95 finalizing_message q)"
| "processJob_step x a job (AwaitFinalize m) q =
     (case downloadVideo x (url job) (settings job) of
        Inl e \<Rightarrow> Throw e q
      | Inr path \<Rightarrow>
          let durl = download_url (job_id job) (format (settings job));
              q1 = modify a (\<lambda>j. j\<lparr>result :=
                     Some \<lparr>filePath = path, metadata = m, downloadUrl = durl\<rparr>\<rparr>) q
          in Return (updateProgress a StageFinalizing 100
                       completed_message q1))"

subsection \<open>processNextJob\<close>

text \<open>
  The \<open>finally\<close> block for \<open>queuedJob\<close> at \<open>a\<close>: the identifier leaves the active
  set, a new dispatch is scheduled, and the activation is over.
\<close>

definition finally_block :: "addr \<Rightarrow> string \<Rightarrow> VideoProcessingQueue \<Rightarrow> VideoProcessingQueue" where
  "finally_block a jid q =
     q\<lparr>activeJobs := set_delete jid (activeJobs q), timers := Suc (timers q),
       tasks := (tasks q)(a := None)\<rparr>"

text \<open>
  The \<open>try\<close>/\<open>catch\<close>/\<open>finally\<close> around \<open>await this.processJob(queuedJob)\<close>, applied
  to how the segment of \<open>processJob\<close> ended. The assignments go to \<open>queuedJob\<close>, the
  object at \<open>a\<close>. Every value thrown here is an \<open>Error\<close>, so \<open>error\<close> is its message.
\<close>

fun settle ::
  "extern \<Rightarrow> addr \<Rightarrow> string \<Rightarrow> step_result \<Rightarrow> VideoProcessingQueue" where
  "settle x a jid (Suspend pc' q) = q\<lparr>tasks := (tasks q)(a \<mapsto> pc')\<rparr>"
| "settle x a jid (Return q) =
     finally_block a jid
       (modify a (\<lambda>j. j\<lparr>status := StatusCompleted, completedAt := Some (clock_date x)\<rparr>) q)"
| "settle x a jid (Throw msg q) =
     finally_block a jid
       (modify a (\<lambda>j. j\<lparr>status := StatusFailed, error := Some msg,
                         completedAt := Some (clock_date x)\<rparr>) q)"

text \<open>
  \<open>Array.from(this.jobs.values()).find((job) => job.status === "queued")\<close>, as the
  address of the object found.
\<close>

definition find_queued :: "VideoProcessingQueue \<Rightarrow> addr option" where
  "find_queued q =
     find (\<lambda>a. case heap q a of None \<Rightarrow> False | Some job \<Rightarrow> status job = StatusQueued)
       (map snd (jobs q))"

text \<open>
  \<open>processNextJob\<close> from its call to its first \<open>await\<close>, which is the first one inside
  \<open>processJob\<close>: the activation is then suspended there.
\<close>

definition processNextJob :: "VideoProcessingQueue \<Rightarrow> VideoProcessingQueue" where
  "processNextJob q =
     (if length (activeJobs q) \<ge> maxConcurrentJobs q then q
      else case find_queued q of
        None \<Rightarrow> q
      | Some a \<Rightarrow>
          (case heap q a of
             None \<Rightarrow> q
           | Some queuedJob \<Rightarrow>
               let q1 = q\<lparr>activeJobs := set_add (job_id queuedJob) (activeJobs q)\<rparr>;
                   q2 = modify a (\<lambda>j. j\<lparr>status := StatusProcessing\<rparr>) q1;
                   q3 = processJob_start a q2
               in q3\<lparr>tasks := (tasks q3)(a \<mapsto> AwaitAnalyze)\<rparr>))"

text \<open>
  The resumption of the activation whose \<open>queuedJob\<close> is at \<open>a\<close>: the next segment of
  \<open>processJob\<close>, then the rest of \<open>processNextJob\<close> if \<open>processJob\<close> is over. Nothing
  happens when no activation is suspended on \<open>a\<close>.
\<close>

definition resume :: "extern \<Rightarrow> addr \<Rightarrow> VideoProcessingQueue \<Rightarrow> VideoProcessingQueue" where
  "resume x a q =
     (case tasks q a of
        None \<Rightarrow> q
      | Some p \<Rightarrow>
          (case heap q a of
             None \<Rightarrow> q
           | Some job \<Rightarrow> settle x a (job_id job) (processJob_step x a job p q)))"

subsection \<open>Executions\<close>

text \<open>
  \<open>AddJob url settings now rnd date\<close> is a call of \<open>addJob\<close>; \<open>Timer\<close> is the firing
  of a pending dispatch timer (nothing happens when none is pending); \<open>Resume a x\<close>
  resumes the activation at \<open>a\<close> in the environment \<open>x\<close>. An execution is a list of
  events. The lists are not restricted by the lengths of the delays or by what the
  environment answered before, so the executions of the program are among them.
\<close>

datatype event =
  AddJob string DownloadOptions nat string nat
| Timer
| Resume addr extern

fun step :: "event \<Rightarrow> VideoProcessingQueue \<Rightarrow> VideoProcessingQueue" where
  "step (AddJob u s now rnd date) q = snd (addJob u s now rnd date q)"
| "step Timer q =
     (if timers q = 0 then q else processNextJob (q\<lparr>timers := timers q - 1\<rparr>))"
| "step (Resume a x) q = resume x a q"

definition run :: "event list \<Rightarrow> VideoProcessingQueue \<Rightarrow> VideoProcessingQueue" where
  "run es q = foldl (\<lambda>s e. step e s) q es"

text \<open>The identifiers that the calls of \<open>addJob\<close> in an execution return.\<close>

fun issued :: "event list \<Rightarrow> string list" where
  "issued [] = []"
| "issued (AddJob u s now rnd date # es) = make_job_id now rnd # issued es"
| "issued (e # es) = issued es"

subsection \<open>The status route\<close>

text \<open>
  The \<open>GET\<close> handler of the status route, for the value of the query parameter \<open>id\<close>
  (\<open>None\<close> when it is absent; the empty string is falsy as well).
\<close>

record StatusResponse =
  resp_id :: string
  resp_status :: status
  resp_progress :: ProcessingProgress
  resp_createdAt :: nat
  resp_completedAt :: "nat option"
  resp_error :: "string option"
  resp_result :: "(string \<times> VideoMetadata) option"

datatype http_response =
  Http200 StatusResponse
| Http400 string
| Http404 string

definition status_GET :: "string option \<Rightarrow> VideoProcessingQueue \<Rightarrow> http_response" where
  "status_GET ident q =
     (case ident of
        None \<Rightarrow> Http400 ''Job ID is required''
      | Some k \<Rightarrow>
          if k = [] then Http400 ''Job ID is required''
          else (case getJob q k of
                  None \<Rightarrow> Http404 ''Job not found''
                | Some job \<Rightarrow>
                    Http200
                      \<lparr>resp_id = job_id job, resp_status = status job,
                       resp_progress = progress job, resp_createdAt = createdAt job,
                       resp_completedAt = completedAt job, resp_error = error job,
                       resp_result =
                         (case result job of
                            None \<Rightarrow> None
                          | Some r \<Rightarrow> Some (downloadUrl r, metadata r))\<rparr>))"

section \<open>Notions for the proofs\<close>

subsection \<open>The writes of a segment\<close>

text \<open>
  A snapshot without an estimated time, as \<open>updateProgress\<close> builds it, and the record
  that \<open>addJob\<close> creates.
\<close>

definition snapshot :: "stage \<Rightarrow> real \<Rightarrow> string \<Rightarrow> ProcessingProgress" where
  "snapshot st p msg = \<lparr>stage = st, percent = p, message = msg, estimatedTimeRemaining = None\<rparr>"

definition new_job :: "string \<Rightarrow> DownloadOptions \<Rightarrow> nat \<Rightarrow> string \<Rightarrow> nat \<Rightarrow> ProcessingJob" where
  "new_job u s now rnd date =
     \<lparr>job_id = make_job_id now rnd, url = u, settings = s, status = StatusQueued,
      progress = initial_progress, result = None, error = None, createdAt = date,
      completedAt = None\<rparr>"

text \<open>
  The state in which a segment of \<open>processJob\<close> ends, however it ends.
\<close>

fun result_state :: "step_result \<Rightarrow> VideoProcessingQueue" where
  "result_state (Suspend p q) = q"
| "result_state (Return q) = q"
| "result_state (Throw msg q) = q"

text \<open>
  \<open>segment_writes x job p\<close> lists the snapshots that the segment after the \<open>await\<close>
  \<open>p\<close> assigns to the \<open>progress\<close> of its job, in order; \<open>last_progress\<close> is the
  snapshot the job has afterwards. \<open>writes_of a l\<close> are the snapshots that the log \<open>l\<close>
  records for the object at \<open>a\<close>.
\<close>

fun segment_writes :: "extern \<Rightarrow> ProcessingJob \<Rightarrow> pc \<Rightarrow> ProcessingProgress list" where
  "segment_writes x job AwaitAnalyze = []"
| "segment_writes x job AwaitExtract =
     (case extractMetadata x (url job) of
        None \<Rightarrow> []
      | Some m \<Rightarrow> [snapshot StageDownloading 30 downloading_message,
                   download_snapshot 30 60 0])"
| "segment_writes x job (AwaitDownload m s e i) =
     (if Suc i < 10 then [download_snapshot s e (Suc i)]
      else if removeWatermark (settings job)
      then [snapshot StageProcessing 65 watermark_message]
      else [snapshot StageConverting 80
              (converting_message (format (settings job)))])"
| "segment_writes x job (AwaitWatermark m) =
     [snapshot StageConverting 80
        (converting_message (format (settings job)))]"
| "segment_writes x job (AwaitConvert m) =
     [snapshot StageFinalizing 95 finalizing_message]"
| "segment_writes x job (AwaitFinalize m) =
     (case downloadVideo x (url job) (settings job) of
        Inl e \<Rightarrow> []
      | Inr path \<Rightarrow> [snapshot StageFinalizing 100 completed_message])"

definition last_progress :: "ProcessingProgress \<Rightarrow> ProcessingProgress list \<Rightarrow> ProcessingProgress" where
  "last_progress pr ws = (if ws = [] then pr else last ws)"

definition writes_of :: "addr \<Rightarrow> (addr \<times> ProcessingProgress) list \<Rightarrow> ProcessingProgress list" where
  "writes_of a l = map snd (filter (\<lambda>e. fst e = a) l)"

subsection \<open>Invariants\<close>

text \<open>
  The store and the registry fit together: allocated addresses lie below \<open>next_addr\<close>,
  the identifier of every object is a key of the registry, every entry of the registry
  points to an object with the identifier of the entry, and no key occurs twice.
\<close>

definition inv_heap :: "VideoProcessingQueue \<Rightarrow> bool" where
  "inv_heap q \<longleftrightarrow>
     (\<forall>a. heap q a \<noteq> None \<longrightarrow> a < next_addr q) \<and>
     (\<forall>a j. heap q a = Some j \<longrightarrow> map_of (jobs q) (job_id j) \<noteq> None) \<and>
     (\<forall>k a. map_of (jobs q) k = Some a \<longrightarrow> (\<exists>j. heap q a = Some j \<and> job_id j = k)) \<and>
     distinct (map fst (jobs q))"

text \<open>
  The percentage that the job of a suspended activation shows, by the \<open>await\<close> the
  activation is suspended at, and the values that the parameters and the counter of the
  loop of \<open>simulateDownloadProgress\<close> can have there.
\<close>

fun pc_percent :: "pc \<Rightarrow> real" where
  "pc_percent AwaitAnalyze = 10"
| "pc_percent AwaitExtract = 10"
| "pc_percent (AwaitDownload m s e i) = percent (download_snapshot s e i)"
| "pc_percent (AwaitWatermark m) = 65"
| "pc_percent (AwaitConvert m) = 80"
| "pc_percent (AwaitFinalize m) = 95"

fun pc_ok :: "pc \<Rightarrow> bool" where
  "pc_ok (AwaitDownload m s e i) = (s = 30 \<and> e = 60 \<and> i < 10)"
| "pc_ok p = True"

text \<open>
  The job of every suspended activation is \<open>processing\<close> and shows the percentage of the
  \<open>await\<close>. An object that is \<open>queued\<close> still has its first snapshot, and an object
  shows the stage \<open>processing\<close> only if its settings ask for watermark removal. The
  snapshots logged for an object do not exceed the percentage the object shows, obey the
  same rule for the stage \<open>processing\<close>, and are in non-decreasing order.
\<close>

definition inv_tasks :: "VideoProcessingQueue \<Rightarrow> bool" where
  "inv_tasks q \<longleftrightarrow>
     (\<forall>a p. tasks q a = Some p \<longrightarrow>
        pc_ok p \<and>
        (\<exists>j. heap q a = Some j \<and> status j = StatusProcessing \<and>
             percent (progress j) = pc_percent p))"

definition inv_objs :: "VideoProcessingQueue \<Rightarrow> bool" where
  "inv_objs q \<longleftrightarrow>
     (\<forall>a j. heap q a = Some j \<longrightarrow>
        (status j = StatusQueued \<longrightarrow> progress j = initial_progress) \<and>
        (stage (progress j) = StageProcessing \<longrightarrow> removeWatermark (settings j)))"

definition inv_log :: "VideoProcessingQueue \<Rightarrow> bool" where
  "inv_log q \<longleftrightarrow>
     (\<forall>a w. (a, w) \<in> set (progress_log q) \<longrightarrow>
        (\<exists>j. heap q a = Some j \<and> percent w \<le> percent (progress j) \<and>
             (stage w = StageProcessing \<longrightarrow> removeWatermark (settings j)))) \<and>
     (\<forall>a. sorted (map percent (writes_of a (progress_log q))))"

definition inv :: "VideoProcessingQueue \<Rightarrow> bool" where
  "inv q \<longleftrightarrow> inv_heap q \<and> inv_tasks q \<and> inv_objs q \<and> inv_log q"

text \<open>
  No entry of the registry points to the job of a suspended activation, and every entry
  points to an object that is \<open>queued\<close> or \<open>processing\<close>.
\<close>

definition inv_registry :: "VideoProcessingQueue \<Rightarrow> bool" where
  "inv_registry q \<longleftrightarrow>
     (\<forall>k a. map_of (jobs q) k = Some a \<longrightarrow>
        tasks q a = None \<and>
        (\<exists>j. heap q a = Some j \<and> (status j = StatusQueued \<or> status j = StatusProcessing)))"

subsection \<open>Executions\<close>

text \<open>
  A queue as the class creates it, with the limit set to \<open>n\<close> (the class sets 3). An
  identifier is still queued when \<open>getJob\<close> returns a \<open>queued\<close> record for it.
\<close>

definition queue_with_limit :: "nat \<Rightarrow> VideoProcessingQueue" where
  "queue_with_limit n = new_queue\<lparr>maxConcurrentJobs := n\<rparr>"

definition queued_id :: "VideoProcessingQueue \<Rightarrow> string \<Rightarrow> bool" where
  "queued_id q k = (case getJob q k of None \<Rightarrow> False | Some j \<Rightarrow> status j = StatusQueued)"

text \<open>
  The jobs of an execution in the order of their submission: the records that the calls
  of \<open>addJob\<close> create. (\<open>issued\<close> lists their identifiers.) A job is still queued when
  \<open>getJob\<close> returns, for its identifier, the record as \<open>addJob\<close> created it.
\<close>

fun submitted :: "event list \<Rightarrow> ProcessingJob list" where
  "submitted [] = []"
| "submitted (AddJob u s now rnd date # es) = new_job u s now rnd date # submitted es"
| "submitted (e # es) = submitted es"

definition still_queued :: "VideoProcessingQueue \<Rightarrow> ProcessingJob \<Rightarrow> bool" where
  "still_queued q j = (getJob q (job_id j) = Some j)"

text \<open>
  The identifiers of the jobs that are running: the jobs of the suspended activations.
\<close>

definition running_ids :: "VideoProcessingQueue \<Rightarrow> string list" where
  "running_ids q =
     List.map_filter
       (\<lambda>a. if tasks q a = None then None else map_option job_id (heap q a))
       [0..<next_addr q]"

text \<open>
  Following the spec's words: the \<open>downloading\<close> stage spans the range from 10 to 60
  percent, and its sub-steps are ten equal steps that interpolate linearly between the
  start and the end of that range.
\<close>

definition spec_substep_percent :: "nat \<Rightarrow> real" where
  "spec_substep_percent i = 10 + (60 - 10) / 10 * real i"

subsection \<open>Sample executions\<close>

text \<open>
  Two settings, a metadata record, an environment in which every URL parses and one in
  which none does, both with the clock at \<open>t\<close>, and three URLs.
\<close>

definition plain_options :: DownloadOptions where
  "plain_options = \<lparr>quality = ''best'', format = ''mp4'', audioOnly = False, removeWatermark = False\<rparr>"

definition watermark_options :: DownloadOptions where
  "watermark_options = \<lparr>quality = ''best'', format = ''mp4'', audioOnly = False, removeWatermark = True\<rparr>"

definition sample_metadata :: VideoMetadata where
  "sample_metadata =
     \<lparr>title = ''Gaming Highlights'', description = None, duration = 30, thumbnail = [],
      uploader = ''Youtube Creator'', uploadDate = [], viewCount = None, likeCount = None\<rparr>"

definition env_ok :: "nat \<Rightarrow> extern" where
  "env_ok t = \<lparr>url_parses = (\<lambda>u. True), mock_metadata = sample_metadata, clock_now = t, clock_date = t\<rparr>"

definition env_bad :: "nat \<Rightarrow> extern" where
  "env_bad t = \<lparr>url_parses = (\<lambda>u. False), mock_metadata = sample_metadata, clock_now = t, clock_date = t\<rparr>"

definition sample_url :: string where
  "sample_url = ''https://youtu.be/x''"

definition second_url :: string where
  "second_url = ''https://youtu.be/y''"

definition third_url :: string where
  "third_url = ''https://youtu.be/z''"

text \<open>
  One job without watermark removal, from its submission at time 1000 to its end: the
  dispatch timer, then the fourteen resumptions at the times at which the timers of
  \<open>processJob\<close> end. \<open>plain_run_writes\<close> and \<open>plain_run_result\<close> are the snapshots it
  writes and the result it sets; \<open>download_prefix\<close> is its beginning, up to the first
  sub-step of the download, and \<open>download_run\<close> its beginning up to the third sub-step.
\<close>

definition plain_run :: "event list" where
  "plain_run =
     [AddJob sample_url plain_options 1000 ''abc'' 1000, Timer,
      Resume 0 (env_ok 2100), Resume 0 (env_ok 2900),
      Resume 0 (env_ok 3400), Resume 0 (env_ok 3900), Resume 0 (env_ok 4400),
      Resume 0 (env_ok 4900), Resume 0 (env_ok 5400), Resume 0 (env_ok 5900),
      Resume 0 (env_ok 6400), Resume 0 (env_ok 6900), Resume 0 (env_ok 7400),
      Resume 0 (env_ok 7900), Resume 0 (env_ok 9400), Resume 0 (env_ok 9900)]"

definition plain_run_writes :: "ProcessingProgress list" where
  "plain_run_writes =
     [initial_progress,
      snapshot StageAnalyzing 10 analyzing_message,
      snapshot StageDownloading 30 downloading_message,
      download_snapshot 30 60 0, download_snapshot 30 60 1, download_snapshot 30 60 2,
      download_snapshot 30 60 3, download_snapshot 30 60 4, download_snapshot 30 60 5,
      download_snapshot 30 60 6, download_snapshot 30 60 7, download_snapshot 30 60 8,
      download_snapshot 30 60 9,
      snapshot StageConverting 80 (converting_message ''mp4''),
      snapshot StageFinalizing 95 finalizing_message,
      snapshot StageFinalizing 100 completed_message]"

definition plain_run_result :: JobResult where
  "plain_run_result =
     \<lparr>filePath = download_path 9900 ''mp4'', metadata = sample_metadata,
      downloadUrl = download_url ''job_1000_abc'' ''mp4''\<rparr>"

definition download_prefix :: "event list" where
  "download_prefix =
     [AddJob sample_url plain_options 1000 ''abc'' 1000, Timer,
      Resume 0 (env_ok 2100), Resume 0 (env_ok 2900)]"

definition download_run :: "event list" where
  "download_run = download_prefix @ [Resume 0 (env_ok 3400), Resume 0 (env_ok 3900)]"

text \<open>
  Two submissions and nothing else.
\<close>

definition two_submits :: "event list" where
  "two_submits =
     [AddJob sample_url plain_options 1000 ''abc'' 1000,
      AddJob sample_url watermark_options 1001 ''xyz'' 1001]"

text \<open>
  A job is submitted and admitted and reaches the \<open>await\<close> inside \<open>extractMetadata\<close>
  (\<open>busy_prefix\<close>); \<open>busy_suffix\<close> continues with the resumption in which that job
  writes its next snapshot to the registry, and a further submission, but no dispatch.
  In \<open>running_collision\<close> the second submission reads the clock value and draws the
  suffix of the job that is running (\<open>Date.now()\<close> follows the system clock, which can
  be set back), and the running job is resumed before the timer of the second submission
  fires.
\<close>

definition busy_prefix :: "event list" where
  "busy_prefix =
     [AddJob sample_url plain_options 1000 ''abc'' 1000, Timer, Resume 0 (env_ok 2100)]"

definition busy_suffix :: "event list" where
  "busy_suffix =
     [Resume 0 (env_ok 2900), AddJob third_url plain_options 2920 ''def'' 2920]"

definition running_collision :: "event list" where
  "running_collision =
     [AddJob sample_url plain_options 1000 ''abc'' 1000, Timer, Resume 0 (env_ok 2100),
      AddJob second_url watermark_options 1000 ''abc'' 1000, Resume 0 (env_ok 1050)]"

text \<open>
  Three submissions within one millisecond, of which the third draws the suffix of the
  first.
\<close>

definition collide_submits :: "event list" where
  "collide_submits =
     [AddJob sample_url plain_options 1000 ''abc'' 1000,
      AddJob second_url plain_options 1000 ''xyz'' 1000,
      AddJob third_url plain_options 1000 ''abc'' 1000]"

text \<open>
  Four submissions A, B, C, D to a queue with limit 1, with strings that are not URLs,
  and an execution in which the four timers of the submissions fire and each job in turn
  fails at \<open>extractMetadata\<close> and is followed by the dispatch that its \<open>finally\<close> block
  schedules.
\<close>

definition fifo_submits :: "event list" where
  "fifo_submits =
     [AddJob ''A'' plain_options 1 ''a'' 1,
      AddJob ''B'' plain_options 2 ''b'' 2,
      AddJob ''C'' plain_options 3 ''c'' 3,
      AddJob ''D'' plain_options 4 ''d'' 4]"

definition fifo_run :: "event list" where
  "fifo_run =
     fifo_submits @
     [Timer, Timer, Timer, Timer,
      Resume 0 (env_bad 1100), Resume 0 (env_bad 1900), Timer,
      Resume 1 (env_bad 3000), Resume 1 (env_bad 3800), Timer,
      Resume 2 (env_bad 4900), Resume 2 (env_bad 5700), Timer]"

text \<open>
  One job whose URL does not parse, up to its failure.
\<close>

definition failed_run :: "event list" where
  "failed_run =
     [AddJob ''not a url'' plain_options 1000 ''abc'' 1000, Timer,
      Resume 0 (env_bad 2100), Resume 0 (env_bad 2900)]"

text \<open>
  One job runs alone up to its last \<open>await\<close> (time 9400). Three jobs are submitted
  then and their timers fire: two are admitted, the third finds three active jobs. The
  first job ends at 9900, before the first timer of the other two ends, and the dispatch
  it schedules fires.
\<close>

definition overload_run :: "event list" where
  "overload_run =
     [AddJob sample_url plain_options 1000 ''a'' 1000, Timer,
      Resume 0 (env_ok 2100), Resume 0 (env_ok 2900),
      Resume 0 (env_ok 3400), Resume 0 (env_ok 3900), Resume 0 (env_ok 4400),
      Resume 0 (env_ok 4900), Resume 0 (env_ok 5400), Resume 0 (env_ok 5900),
      Resume 0 (env_ok 6400), Resume 0 (env_ok 6900), Resume 0 (env_ok 7400),
      Resume 0 (env_ok 7900), Resume 0 (env_ok 9400),
      AddJob sample_url plain_options 9450 ''b'' 9450,
      AddJob sample_url plain_options 9460 ''c'' 9460,
      AddJob sample_url plain_options 9470 ''d'' 9470,
      Timer, Timer, Timer,
      Resume 0 (env_ok 9900), Timer]"

section \<open>Basic facts about the model\<close>

subsection \<open>The registry and the store\<close>

lemma map_of_map_set: "map_of (map_set k v m) = (map_of m)(k \<mapsto> v)"
  by (induction m) (auto simp: fun_eq_iff)

lemma keys_map_set:
  "map fst (map_set k v m) = (if k \<in> set (map fst m) then map fst m else map fst m @ [k])"
proof (induction m)
  case Nil
  show ?case by simp
next
  case (Cons p m)
  obtain k' v' where p: "p = (k', v')" by (cases p)
  show ?case
  proof (cases "k' = k")
    case True
    then show ?thesis by (simp add: p)
  next
    case False
    then show ?thesis using Cons by (simp add: p)
  qed
qed

lemma map_set_fresh: "k \<notin> set (map fst m) \<Longrightarrow> map_set k v m = m @ [(k, v)]"
  by (induction m) auto

lemma distinct_map_set: "distinct (map fst m) \<Longrightarrow> distinct (map fst (map_set k v m))"
  by (simp add: keys_map_set)

lemma map_of_None_iff: "map_of m k = None \<longleftrightarrow> k \<notin> set (map fst m)"
  by (simp add: map_of_eq_None_iff)

lemma modify_Some:
  "heap q a = Some job \<Longrightarrow> modify a f q = q\<lparr>heap := (heap q)(a \<mapsto> f job)\<rparr>"
  by (simp add: modify_def)

lemma updateProgress_Some:
  "heap q a = Some job \<Longrightarrow>
   updateProgress a st p msg q =
     q\<lparr>heap := (heap q)(a \<mapsto> job\<lparr>progress := \<lparr>stage = st, percent = p, message = msg, estimatedTimeRemaining = None\<rparr>\<rparr>,
                      next_addr q \<mapsto> job\<lparr>progress := \<lparr>stage = st, percent = p, message = msg, estimatedTimeRemaining = None\<rparr>\<rparr>),
       next_addr := Suc (next_addr q),
       jobs := map_set (job_id job) (next_addr q) (jobs q),
       progress_log := progress_log q @ [(a, \<lparr>stage = st, percent = p, message = msg, estimatedTimeRemaining = None\<rparr>)]\<rparr>"
  by (simp add: updateProgress_def Let_def)

lemma simulate_iteration_Some:
  "heap q a = Some job \<Longrightarrow>
   simulate_iteration a s e i q =
     q\<lparr>heap := (heap q)(a \<mapsto> job\<lparr>progress := download_snapshot s e i\<rparr>),
       progress_log := progress_log q @ [(a, download_snapshot s e i)]\<rparr>"
  by (simp add: simulate_iteration_def modify_def Let_def)

lemma inv_heap_frame [simp]:
  "inv_heap (q\<lparr>progress_log := l\<rparr>) = inv_heap q"
  "inv_heap (q\<lparr>tasks := t\<rparr>) = inv_heap q"
  "inv_heap (q\<lparr>timers := n\<rparr>) = inv_heap q"
  "inv_heap (q\<lparr>activeJobs := ac\<rparr>) = inv_heap q"
  "inv_heap (q\<lparr>maxConcurrentJobs := mx\<rparr>) = inv_heap q"
  by (simp_all add: inv_heap_def)

lemma inv_heap_modify:
  assumes "inv_heap q" and "\<And>j. job_id (f j) = job_id j"
  shows "inv_heap (modify a f q)"
proof (cases "heap q a")
  case None
  then show ?thesis using assms by (simp add: modify_def)
next
  case (Some job)
  show ?thesis
    unfolding inv_heap_def modify_Some[OF Some]
    apply (intro conjI allI impI)
    subgoal for b using assms Some unfolding inv_heap_def by (auto split: if_splits)
    subgoal for b j using assms Some unfolding inv_heap_def by (auto split: if_splits)
    subgoal for k b using assms Some unfolding inv_heap_def by (cases "b = a") fastforce+
    subgoal using assms unfolding inv_heap_def by simp
    done
qed

lemma inv_heap_updateProgress:
  assumes "inv_heap q"
  shows "inv_heap (updateProgress a st p msg q)"
proof (cases "heap q a")
  case None
  then show ?thesis using assms by (simp add: updateProgress_def)
next
  case (Some job)
  have fresh: "heap q (next_addr q) = None"
    using assms unfolding inv_heap_def by (metis less_irrefl)
  show ?thesis
    unfolding inv_heap_def updateProgress_Some[OF Some]
    apply (intro conjI allI impI)
    subgoal for b using assms Some unfolding inv_heap_def by (auto split: if_splits)
    subgoal for b j using assms Some unfolding inv_heap_def
      by (auto simp: map_of_map_set split: if_splits)
    subgoal for k b using assms Some fresh unfolding inv_heap_def
      by (cases "b = a") (fastforce simp: map_of_map_set split: if_splits)+
    subgoal using assms unfolding inv_heap_def by (simp add: distinct_map_set)
    done
qed

lemma inv_heap_simulate_iteration:
  assumes "inv_heap q"
  shows "inv_heap (simulate_iteration a s e i q)"
proof -
  have "inv_heap (modify a (\<lambda>j. j\<lparr>progress := download_snapshot s e i\<rparr>) q)"
    using assms by (rule inv_heap_modify) simp
  then show ?thesis
    by (simp add: simulate_iteration_def Let_def)
qed

lemma inv_heap_addJob:
  assumes "inv_heap q"
  shows "inv_heap (snd (addJob u s now rnd date q))"
  unfolding inv_heap_def addJob_def Let_def
  apply (simp only: snd_conv)
  apply (intro conjI allI impI)
  subgoal for b using assms unfolding inv_heap_def by (auto split: if_splits)
  subgoal for b j using assms unfolding inv_heap_def by (auto simp: map_of_map_set split: if_splits)
  subgoal for k b using assms unfolding inv_heap_def
    by (cases "b = next_addr q") (fastforce simp: map_of_map_set split: if_splits)+
  subgoal using assms unfolding inv_heap_def by (simp add: distinct_map_set)
  done

subsection \<open>Frame lemmas\<close>

lemma modify_frame [simp]:
  "next_addr (modify a f q) = next_addr q"
  "jobs (modify a f q) = jobs q"
  "activeJobs (modify a f q) = activeJobs q"
  "maxConcurrentJobs (modify a f q) = maxConcurrentJobs q"
  "timers (modify a f q) = timers q"
  "tasks (modify a f q) = tasks q"
  "progress_log (modify a f q) = progress_log q"
  by (simp_all add: modify_def split: option.splits)

lemma heap_modify: "heap (modify a f q) = (heap q)(a := map_option f (heap q a))"
  by (auto simp: modify_def fun_eq_iff split: option.splits)

lemma updateProgress_frame [simp]:
  "activeJobs (updateProgress a st p msg q) = activeJobs q"
  "maxConcurrentJobs (updateProgress a st p msg q) = maxConcurrentJobs q"
  "timers (updateProgress a st p msg q) = timers q"
  "tasks (updateProgress a st p msg q) = tasks q"
  by (simp_all add: updateProgress_def Let_def split: option.splits)

lemma simulate_iteration_frame [simp]:
  "next_addr (simulate_iteration a s e i q) = next_addr q"
  "jobs (simulate_iteration a s e i q) = jobs q"
  "activeJobs (simulate_iteration a s e i q) = activeJobs q"
  "maxConcurrentJobs (simulate_iteration a s e i q) = maxConcurrentJobs q"
  "timers (simulate_iteration a s e i q) = timers q"
  "tasks (simulate_iteration a s e i q) = tasks q"
  by (simp_all add: simulate_iteration_def Let_def)

lemma heap_simulate_iteration:
  "heap (simulate_iteration a s e i q) =
     (heap q)(a := map_option (\<lambda>j. j\<lparr>progress := download_snapshot s e i\<rparr>) (heap q a))"
  by (simp add: simulate_iteration_def Let_def heap_modify)

lemma heap_updateProgress_other:
  "b \<noteq> a \<Longrightarrow> b \<noteq> next_addr q \<Longrightarrow> heap (updateProgress a st p msg q) b = heap q b"
  by (simp add: updateProgress_def Let_def split: option.splits)

lemma heap_updateProgress_self:
  "heap q a = Some job \<Longrightarrow> a \<noteq> next_addr q \<Longrightarrow>
   heap (updateProgress a st p msg q) a =
     Some (job\<lparr>progress := \<lparr>stage = st, percent = p, message = msg, estimatedTimeRemaining = None\<rparr>\<rparr>)"
  by (simp add: updateProgress_Some)

lemma next_addr_updateProgress:
  "next_addr (updateProgress a st p msg q) =
     (if heap q a = None then next_addr q else Suc (next_addr q))"
  by (simp add: updateProgress_def Let_def split: option.splits)

lemma processJob_step_frame [simp]:
  "activeJobs (result_state (processJob_step x a job p q)) = activeJobs q"
  "maxConcurrentJobs (result_state (processJob_step x a job p q)) = maxConcurrentJobs q"
  "timers (result_state (processJob_step x a job p q)) = timers q"
  "tasks (result_state (processJob_step x a job p q)) = tasks q"
  by (cases p; simp add: stage_converting_def Let_def split: option.splits sum.splits)+

lemma processJob_step_heap_other:
  "b \<noteq> a \<Longrightarrow> b < next_addr q \<Longrightarrow>
   heap (result_state (processJob_step x a job p q)) b = heap q b"
  by (cases p; simp add: stage_converting_def Let_def heap_modify heap_simulate_iteration
        heap_updateProgress_other split: option.splits sum.splits)

lemma processJob_step_next_addr:
  "next_addr q \<le> next_addr (result_state (processJob_step x a job p q))"
  by (cases p; simp add: stage_converting_def Let_def next_addr_updateProgress
        split: option.splits sum.splits)

lemma inv_heap_processJob_step:
  "inv_heap q \<Longrightarrow> inv_heap (result_state (processJob_step x a job p q))"
  by (cases p; simp add: stage_converting_def Let_def inv_heap_updateProgress
        inv_heap_simulate_iteration inv_heap_modify split: option.splits sum.splits)

lemma settle_frame [simp]:
  "maxConcurrentJobs (settle x a jid r) = maxConcurrentJobs (result_state r)"
  "next_addr (settle x a jid r) = next_addr (result_state r)"
  "jobs (settle x a jid r) = jobs (result_state r)"
  "progress_log (settle x a jid r) = progress_log (result_state r)"
  by (cases r; simp add: finally_block_def)+

lemma settle_heap_other:
  "b \<noteq> a \<Longrightarrow> heap (settle x a jid r) b = heap (result_state r) b"
  by (cases r; simp add: finally_block_def heap_modify)

lemma settle_tasks_other:
  "b \<noteq> a \<Longrightarrow> tasks (settle x a jid r) b = tasks (result_state r) b"
  by (cases r; simp add: finally_block_def)

lemma inv_heap_settle:
  "inv_heap (result_state r) \<Longrightarrow> inv_heap (settle x a jid r)"
  by (cases r; simp add: finally_block_def inv_heap_modify)

lemma resume_heap_other:
  "b \<noteq> a \<Longrightarrow> b < next_addr q \<Longrightarrow> heap (resume x a q) b = heap q b"
  by (simp add: resume_def settle_heap_other processJob_step_heap_other split: option.splits)

lemma resume_tasks_other:
  "b \<noteq> a \<Longrightarrow> tasks (resume x a q) b = tasks q b"
  by (simp add: resume_def settle_tasks_other split: option.splits)

lemma resume_next_addr: "next_addr q \<le> next_addr (resume x a q)"
  by (simp add: resume_def processJob_step_next_addr split: option.splits)

lemma resume_maxConcurrentJobs [simp]: "maxConcurrentJobs (resume x a q) = maxConcurrentJobs q"
  by (simp add: resume_def split: option.splits)

lemma inv_heap_resume: "inv_heap q \<Longrightarrow> inv_heap (resume x a q)"
  by (simp add: resume_def inv_heap_settle inv_heap_processJob_step split: option.splits)

lemma inv_heap_processNextJob: "inv_heap q \<Longrightarrow> inv_heap (processNextJob q)"
  by (simp add: processNextJob_def processJob_start_def Let_def inv_heap_updateProgress
        inv_heap_modify split: option.splits)

lemma inv_heap_step: "inv_heap q \<Longrightarrow> inv_heap (step e q)"
  by (cases e) (simp_all add: inv_heap_addJob inv_heap_resume inv_heap_processNextJob)

lemma run_snoc: "run (es @ [e]) q = step e (run es q)"
  by (simp add: run_def)

lemma run_Nil [simp]: "run [] q = q"
  by (simp add: run_def)

lemma run_Cons: "run (e # es) q = run es (step e q)"
  by (simp add: run_def)

lemma inv_heap_run: "inv_heap q \<Longrightarrow> inv_heap (run es q)"
  by (induction es rule: rev_induct) (simp_all add: run_snoc inv_heap_step)

lemma inv_heap_new: "inv_heap (new_queue\<lparr>maxConcurrentJobs := n\<rparr>)"
  by (simp add: inv_heap_def new_queue_def)

subsection \<open>What a segment writes\<close>

lemma progress_log_simulate_iteration [simp]:
  "progress_log (simulate_iteration a s e i q) = progress_log q @ [(a, download_snapshot s e i)]"
  by (simp add: simulate_iteration_def Let_def)

lemma progress_log_updateProgress:
  "heap q a \<noteq> None \<Longrightarrow>
   progress_log (updateProgress a st p msg q) = progress_log q @ [(a, snapshot st p msg)]"
  by (auto simp: updateProgress_def Let_def snapshot_def)

lemma heap_updateProgress:
  "heap q a = Some job \<Longrightarrow>
   heap (updateProgress a st p msg q) =
     (heap q)(a \<mapsto> job\<lparr>progress := snapshot st p msg\<rparr>,
              next_addr q \<mapsto> job\<lparr>progress := snapshot st p msg\<rparr>)"
  by (simp add: updateProgress_Some snapshot_def)

lemma processJob_step_log:
  "heap q a = Some job \<Longrightarrow> a \<noteq> next_addr q \<Longrightarrow>
   progress_log (result_state (processJob_step x a job p q)) =
     progress_log q @ map (Pair a) (segment_writes x job p)"
  by (cases p; simp add: stage_converting_def Let_def progress_log_updateProgress
        heap_modify split: option.splits sum.splits)

lemma processJob_step_self:
  "heap q a = Some job \<Longrightarrow> a \<noteq> next_addr q \<Longrightarrow>
   \<exists>j'. heap (result_state (processJob_step x a job p q)) a = Some j' \<and>
        job_id j' = job_id job \<and> url j' = url job \<and> settings j' = settings job \<and>
        status j' = status job \<and> error j' = error job \<and>
        progress j' = last_progress (progress job) (segment_writes x job p)"
  by (cases p; simp add: stage_converting_def Let_def heap_updateProgress heap_modify
        heap_simulate_iteration last_progress_def split: option.splits sum.splits)

lemma processJob_step_new:
  "heap q a = Some job \<Longrightarrow> a \<noteq> next_addr q \<Longrightarrow> heap q b = None \<Longrightarrow>
   heap (result_state (processJob_step x a job p q)) b = Some j \<Longrightarrow>
   job_id j = job_id job \<and> settings j = settings job \<and> status j = status job \<and>
   error j = error job \<and> progress j \<in> set (segment_writes x job p)"
  by (cases p; simp add: stage_converting_def Let_def heap_updateProgress heap_modify
        heap_simulate_iteration split: option.splits sum.splits if_splits; auto)

lemma processJob_step_pc:
  "pc_ok p \<Longrightarrow> processJob_step x a job p q = Suspend p' q' \<Longrightarrow>
   pc_ok p' \<and>
   pc_percent p' = (if segment_writes x job p = [] then pc_percent p
                    else percent (last (segment_writes x job p)))"
  by (cases p; auto simp: stage_converting_def Let_def snapshot_def
        split: option.splits sum.splits if_splits)

lemma segment_writes_sorted:
  "pc_ok p \<Longrightarrow> sorted (pc_percent p # map percent (segment_writes x job p))"
  by (cases p; simp add: snapshot_def download_snapshot_def Let_def
        split: option.splits sum.splits)

lemma segment_writes_stage:
  "w \<in> set (segment_writes x job p) \<Longrightarrow> stage w = StageProcessing \<Longrightarrow>
   removeWatermark (settings job)"
  by (cases p; simp add: snapshot_def download_snapshot_def Let_def
        split: option.splits sum.splits if_splits; auto)

subsection \<open>Invariants\<close>

lemma writes_of_append [simp]: "writes_of a (l1 @ l2) = writes_of a l1 @ writes_of a l2"
  by (simp add: writes_of_def)

lemma writes_of_Pair [simp]: "writes_of b (map (Pair a) ws) = (if b = a then ws else [])"
  by (induction ws) (auto simp: writes_of_def)

lemma writes_of_Nil [simp]: "writes_of a [] = []"
  by (simp add: writes_of_def)

lemma set_writes_of: "w \<in> set (writes_of a l) \<longleftrightarrow> (a, w) \<in> set l"
  by (force simp: writes_of_def)

lemma resume_log:
  assumes "inv_heap q" "tasks q a = Some p" "heap q a = Some job"
  shows "progress_log (resume x a q) = progress_log q @ map (Pair a) (segment_writes x job p)"
proof -
  have "a \<noteq> next_addr q" using assms unfolding inv_heap_def by fastforce
  then show ?thesis
    using assms by (simp add: resume_def processJob_step_log)
qed

lemma resume_self:
  assumes "inv_heap q" "tasks q a = Some p" "heap q a = Some job" "pc_ok p"
  shows "\<exists>j'. heap (resume x a q) a = Some j' \<and> job_id j' = job_id job \<and>
           settings j' = settings job \<and>
           progress j' = last_progress (progress job) (segment_writes x job p) \<and>
           (case tasks (resume x a q) a of
              None \<Rightarrow> status j' = StatusCompleted \<or> status j' = StatusFailed
            | Some p' \<Rightarrow> status j' = status job \<and> pc_ok p' \<and>
                pc_percent p' = (if segment_writes x job p = [] then pc_percent p
                                 else percent (last (segment_writes x job p))))"
proof -
  have ne: "a \<noteq> next_addr q" using assms unfolding inv_heap_def by fastforce
  obtain j1 where j1: "heap (result_state (processJob_step x a job p q)) a = Some j1"
    "job_id j1 = job_id job" "settings j1 = settings job" "status j1 = status job"
    "progress j1 = last_progress (progress job) (segment_writes x job p)"
    using processJob_step_self[OF assms(3) ne, of x p] by blast
  have eq: "resume x a q = settle x a (job_id job) (processJob_step x a job p q)"
    using assms by (simp add: resume_def)
  show ?thesis
  proof (cases "processJob_step x a job p q")
    case (Suspend p' q1)
    with j1 processJob_step_pc[OF assms(4) Suspend] show ?thesis
      by (simp add: eq)
  next
    case (Return q1)
    with j1 show ?thesis
      by (simp add: eq finally_block_def modify_def)
  next
    case (Throw msg q1)
    with j1 show ?thesis
      by (simp add: eq finally_block_def modify_def)
  qed
qed

lemma resume_new:
  assumes "inv_heap q" "tasks q a = Some p" "heap q a = Some job"
    and "heap q b = None" "heap (resume x a q) b = Some j"
  shows "job_id j = job_id job \<and> settings j = settings job \<and> status j = status job \<and>
         progress j \<in> set (segment_writes x job p)"
proof -
  have ne: "a \<noteq> next_addr q" using assms unfolding inv_heap_def by fastforce
  have ba: "b \<noteq> a" using assms by auto
  have eq: "resume x a q = settle x a (job_id job) (processJob_step x a job p q)"
    using assms by (simp add: resume_def)
  have "heap (result_state (processJob_step x a job p q)) b = Some j"
    using assms(5) ba by (simp add: eq settle_heap_other)
  from processJob_step_new[OF assms(3) ne assms(4) this] show ?thesis by simp
qed

lemma sorted_le_last: "sorted xs \<Longrightarrow> x \<in> set xs \<Longrightarrow> x \<le> last (xs :: real list)"
  by (induction xs) auto

lemma segment_writes_bounds:
  assumes "pc_ok p" and "w \<in> set (segment_writes x job p)"
  shows "pc_percent p \<le> percent w"
    and "percent w \<le> percent (last (segment_writes x job p))"
    and "sorted (map percent (segment_writes x job p))"
proof -
  let ?ws = "segment_writes x job p"
  have s: "sorted (pc_percent p # map percent ?ws)"
    using assms(1) by (rule segment_writes_sorted)
  show "pc_percent p \<le> percent w" using s assms(2) by auto
  show "sorted (map percent ?ws)" using s by simp
  then have "percent w \<le> last (map percent ?ws)"
    using assms(2) by (intro sorted_le_last) auto
  moreover have "?ws \<noteq> []" using assms(2) by auto
  ultimately show "percent w \<le> percent (last ?ws)" by (simp add: last_map)
qed

lemma last_progress_percent:
  assumes "pc_ok p" and "percent pr = pc_percent p"
  shows "pc_percent p \<le> percent (last_progress pr (segment_writes x job p))"
proof (cases "segment_writes x job p = []")
  case True
  then show ?thesis using assms by (simp add: last_progress_def)
next
  case False
  then have "last (segment_writes x job p) \<in> set (segment_writes x job p)" by simp
  from segment_writes_bounds(1)[OF assms(1) this] False show ?thesis
    by (simp add: last_progress_def)
qed

lemma inv_tasks_resume:
  assumes "inv q"
  shows "inv_tasks (resume x a q)"
  unfolding inv_tasks_def
proof (intro allI impI)
  fix b p'
  assume t: "tasks (resume x a q) b = Some p'"
  have ih: "inv_heap q" and it: "inv_tasks q" using assms by (simp_all add: inv_def)
  show "pc_ok p' \<and> (\<exists>j. heap (resume x a q) b = Some j \<and> status j = StatusProcessing \<and>
          percent (progress j) = pc_percent p')"
  proof (cases "b = a")
    case False
    then have "tasks q b = Some p'" using t by (simp add: resume_tasks_other)
    then obtain j where j: "pc_ok p'" "heap q b = Some j" "status j = StatusProcessing"
      "percent (progress j) = pc_percent p'"
      using it unfolding inv_tasks_def by blast
    then have "b < next_addr q" using ih unfolding inv_heap_def by fastforce
    then have "heap (resume x a q) b = heap q b" using False by (rule resume_heap_other[rotated])
    with j show ?thesis by simp
  next
    case True
    show ?thesis
    proof (cases "tasks q a")
      case None
      then have "resume x a q = q" by (simp add: resume_def)
      with t it show ?thesis unfolding inv_tasks_def by simp
    next
      case (Some p)
      then obtain job where job: "pc_ok p" "heap q a = Some job" "status job = StatusProcessing"
        "percent (progress job) = pc_percent p"
        using it unfolding inv_tasks_def by blast
      from resume_self[OF ih Some job(2) job(1), of x] t True job(3,4)
      show ?thesis
        by (auto simp: last_progress_def split: if_splits)
    qed
  qed
qed

lemma inv_objs_resume:
  assumes "inv q"
  shows "inv_objs (resume x a q)"
  unfolding inv_objs_def
proof (intro allI impI)
  fix b j
  assume h: "heap (resume x a q) b = Some j"
  have ih: "inv_heap q" and it: "inv_tasks q" and io: "inv_objs q"
    using assms by (simp_all add: inv_def)
  show "(status j = StatusQueued \<longrightarrow> progress j = initial_progress) \<and>
        (stage (progress j) = StageProcessing \<longrightarrow> removeWatermark (settings j))"
  proof (cases "tasks q a")
    case None
    then have "resume x a q = q" by (simp add: resume_def)
    with h io show ?thesis unfolding inv_objs_def by simp
  next
    case (Some p)
    then obtain job where job: "pc_ok p" "heap q a = Some job" "status job = StatusProcessing"
      "percent (progress job) = pc_percent p"
      using it unfolding inv_tasks_def by blast
    have jobw: "stage (progress job) = StageProcessing \<longrightarrow> removeWatermark (settings job)"
      using io job(2) unfolding inv_objs_def by blast
    show ?thesis
    proof (cases "b = a")
      case True
      from resume_self[OF ih Some job(2) job(1), of x] h True
      have 1: "settings j = settings job"
        and 2: "progress j = last_progress (progress job) (segment_writes x job p)"
        and 3: "status j \<noteq> StatusQueued"
        using job(3) by (auto split: option.splits)
      have "stage (progress j) = StageProcessing \<longrightarrow> removeWatermark (settings job)"
      proof (cases "segment_writes x job p = []")
        case True
        then show ?thesis using 2 jobw by (simp add: last_progress_def)
      next
        case False
        then have "last (segment_writes x job p) \<in> set (segment_writes x job p)" by simp
        from segment_writes_stage[OF this] show ?thesis using 2 False
          by (simp add: last_progress_def)
      qed
      with 1 3 show ?thesis by simp
    next
      case False
      show ?thesis
      proof (cases "heap q b")
        case None
        from resume_new[OF ih Some job(2) None h] job(3) segment_writes_stage
        show ?thesis by auto
      next
        case (Some j0)
        then have "b < next_addr q" using ih unfolding inv_heap_def by fastforce
        then have "heap (resume x a q) b = heap q b"
          using False by (rule resume_heap_other[rotated])
        with h io show ?thesis unfolding inv_objs_def by simp
      qed
    qed
  qed
qed

lemma inv_log_resume:
  assumes "inv q"
  shows "inv_log (resume x a q)"
proof (cases "tasks q a")
  case None
  then have "resume x a q = q" by (simp add: resume_def)
  with assms show ?thesis by (simp add: inv_def)
next
  case (Some p)
  have ih: "inv_heap q" and it: "inv_tasks q" and il: "inv_log q"
    using assms by (simp_all add: inv_def)
  obtain job where job: "pc_ok p" "heap q a = Some job" "status job = StatusProcessing"
    "percent (progress job) = pc_percent p"
    using it Some unfolding inv_tasks_def by blast
  let ?ws = "segment_writes x job p"
  have log: "progress_log (resume x a q) = progress_log q @ map (Pair a) ?ws"
    using ih Some job(2) by (rule resume_log)
  obtain j' where j': "heap (resume x a q) a = Some j'" "settings j' = settings job"
    "progress j' = last_progress (progress job) ?ws"
    using resume_self[OF ih Some job(2) job(1), of x] by blast
  have old_a: "percent w \<le> pc_percent p \<and> (stage w = StageProcessing \<longrightarrow> removeWatermark (settings job))"
    if "(a, w) \<in> set (progress_log q)" for w
    using il that job(2,4) unfolding inv_log_def by fastforce
  have up: "pc_percent p \<le> percent (progress j')"
    using last_progress_percent[OF job(1) job(4)] j'(3) by simp
  show ?thesis
    unfolding inv_log_def
  proof (intro conjI allI impI)
    fix b w
    assume "(b, w) \<in> set (progress_log (resume x a q))"
    then consider (old) "(b, w) \<in> set (progress_log q)" | (new) "b = a" "w \<in> set ?ws"
      by (auto simp: log)
    then show "\<exists>j. heap (resume x a q) b = Some j \<and> percent w \<le> percent (progress j) \<and>
                 (stage w = StageProcessing \<longrightarrow> removeWatermark (settings j))"
    proof cases
      case old
      show ?thesis
      proof (cases "b = a")
        case True
        with old old_a[of w] up j' show ?thesis by auto
      next
        case False
        from old obtain j where j: "heap q b = Some j" "percent w \<le> percent (progress j)"
          "stage w = StageProcessing \<longrightarrow> removeWatermark (settings j)"
          using il unfolding inv_log_def by blast
        then have "b < next_addr q" using ih unfolding inv_heap_def by fastforce
        then have "heap (resume x a q) b = heap q b"
          using False by (rule resume_heap_other[rotated])
        with j show ?thesis by simp
      qed
    next
      case new
      have ne: "?ws \<noteq> []" using new(2) by auto
      have "percent w \<le> percent (last ?ws)"
        using segment_writes_bounds(2)[OF job(1) new(2)] .
      moreover have "stage w = StageProcessing \<longrightarrow> removeWatermark (settings job)"
        using segment_writes_stage[OF new(2)] by blast
      ultimately show ?thesis using new(1) j' ne by (simp add: last_progress_def)
    qed
  next
    fix b
    show "sorted (map percent (writes_of b (progress_log (resume x a q))))"
    proof (cases "b = a")
      case False
      then show ?thesis using il unfolding inv_log_def by (simp add: log)
    next
      case True
      have 1: "sorted (map percent (writes_of a (progress_log q)))"
        using il unfolding inv_log_def by blast
      have 2: "sorted (map percent ?ws)"
        using segment_writes_sorted[OF job(1), of x job] by simp
      have 3: "percent u \<le> percent w"
        if "u \<in> set (writes_of a (progress_log q))" "w \<in> set ?ws" for u w
        using old_a[of u] that segment_writes_bounds(1)[OF job(1) that(2)]
        by (simp add: set_writes_of)
      show ?thesis using 1 2 3 True by (auto simp: log sorted_append)
    qed
  qed
qed

lemma inv_resume: "inv q \<Longrightarrow> inv (resume x a q)"
  using inv_heap_resume inv_tasks_resume inv_objs_resume inv_log_resume
  by (simp add: inv_def)

lemma find_queued_Some:
  assumes "find_queued q = Some a"
  shows "\<exists>job. heap q a = Some job \<and> status job = StatusQueued"
proof -
  from assms have "case heap q a of None \<Rightarrow> False | Some job \<Rightarrow> status job = StatusQueued"
    unfolding find_queued_def find_Some_iff by blast
  then show ?thesis by (cases "heap q a") auto
qed

lemma processNextJob_admit:
  assumes "length (activeJobs q) < maxConcurrentJobs q" "find_queued q = Some a"
    "heap q a = Some job"
  shows "processNextJob q =
     q\<lparr>activeJobs := set_add (job_id job) (activeJobs q),
       heap := (heap q)
         (a \<mapsto> job\<lparr>status := StatusProcessing,
                   progress := snapshot StageAnalyzing 10
                     analyzing_message\<rparr>,
          next_addr q \<mapsto> job\<lparr>status := StatusProcessing,
                   progress := snapshot StageAnalyzing 10
                     analyzing_message\<rparr>),
       next_addr := Suc (next_addr q),
       jobs := map_set (job_id job) (next_addr q) (jobs q),
       progress_log := progress_log q @
         [(a, snapshot StageAnalyzing 10 analyzing_message)],
       tasks := (tasks q)(a \<mapsto> AwaitAnalyze)\<rparr>"
  using assms
  by (simp add: processNextJob_def processJob_start_def Let_def modify_def
      updateProgress_def snapshot_def)

lemma processNextJob_idle:
  assumes "maxConcurrentJobs q \<le> length (activeJobs q) \<or> find_queued q = None"
  shows "processNextJob q = q"
  using assms by (auto simp: processNextJob_def)

lemma inv_processNextJob:
  assumes "inv q"
  shows "inv (processNextJob q)"
proof (cases "length (activeJobs q) < maxConcurrentJobs q \<and> find_queued q \<noteq> None")
  case False
  then have "processNextJob q = q" by (intro processNextJob_idle) auto
  with assms show ?thesis by simp
next
  case True
  then obtain a where a: "find_queued q = Some a" by auto
  then obtain job where job: "heap q a = Some job" "status job = StatusQueued"
    using find_queued_Some by blast
  have ih: "inv_heap q" and it: "inv_tasks q" and io: "inv_objs q" and il: "inv_log q"
    using assms by (simp_all add: inv_def)
  have lt: "b < next_addr q" if "heap q b \<noteq> None" for b
    using ih that unfolding inv_heap_def by blast
  have a_lt: "a < next_addr q" using lt[of a] job by simp
  have p0: "progress job = initial_progress"
    using io job unfolding inv_objs_def by blast
  have sj: "stage (progress job') = StageProcessing \<longrightarrow> removeWatermark (settings job')"
    if "heap q b = Some job'" for b job'
    using io that unfolding inv_objs_def by blast
  note eq = processNextJob_admit[OF conjunct1[OF True] a job(1)]
  have 1: "inv_heap (processNextJob q)" using ih by (rule inv_heap_processNextJob)
  have 2: "inv_tasks (processNextJob q)"
    unfolding inv_tasks_def
  proof (intro allI impI)
    fix b p
    assume t: "tasks (processNextJob q) b = Some p"
    show "pc_ok p \<and> (\<exists>j. heap (processNextJob q) b = Some j \<and> status j = StatusProcessing \<and>
            percent (progress j) = pc_percent p)"
    proof (cases "b = a")
      case True
      with t a_lt show ?thesis by (auto simp: eq snapshot_def)
    next
      case False
      with t have "tasks q b = Some p" by (simp add: eq)
      then obtain j where j: "pc_ok p" "heap q b = Some j" "status j = StatusProcessing"
        "percent (progress j) = pc_percent p"
        using it unfolding inv_tasks_def by blast
      with lt[of b] False show ?thesis by (auto simp: eq)
    qed
  qed
  have 3: "inv_objs (processNextJob q)"
    unfolding inv_objs_def
  proof (intro allI impI)
    fix b j
    assume "heap (processNextJob q) b = Some j"
    then show "(status j = StatusQueued \<longrightarrow> progress j = initial_progress) \<and>
               (stage (progress j) = StageProcessing \<longrightarrow> removeWatermark (settings j))"
      using io unfolding inv_objs_def
      by (auto simp: eq snapshot_def split: if_splits)
  qed
  have old_entry: "\<exists>j. heap q b = Some j \<and> percent w \<le> percent (progress j) \<and>
               (stage w = StageProcessing \<longrightarrow> removeWatermark (settings j))"
    if "(b, w) \<in> set (progress_log q)" for b w
    using il that unfolding inv_log_def by blast
  have 4: "inv_log (processNextJob q)"
    unfolding inv_log_def
  proof (intro conjI allI impI)
    fix b w
    assume "(b, w) \<in> set (progress_log (processNextJob q))"
    then consider (old) "(b, w) \<in> set (progress_log q)"
      | (new) "b = a" "w = snapshot StageAnalyzing 10 analyzing_message"
      by (auto simp: eq)
    then show "\<exists>j. heap (processNextJob q) b = Some j \<and> percent w \<le> percent (progress j) \<and>
                 (stage w = StageProcessing \<longrightarrow> removeWatermark (settings j))"
    proof cases
      case old
      from old_entry[OF old]
      obtain j where j: "heap q b = Some j" "percent w \<le> percent (progress j)"
        "stage w = StageProcessing \<longrightarrow> removeWatermark (settings j)" by blast
      show ?thesis
      proof (cases "b = a")
        case True
        with j job p0 a_lt show ?thesis
          by (auto simp: eq snapshot_def initial_progress_def)
      next
        case False
        with j lt[of b] show ?thesis by (auto simp: eq)
      qed
    next
      case new
      with a_lt show ?thesis by (auto simp: eq snapshot_def)
    qed
  next
    fix b
    have s: "sorted (map percent (writes_of b (progress_log q)))"
      using il unfolding inv_log_def by blast
    show "sorted (map percent (writes_of b (progress_log (processNextJob q))))"
    proof (cases "b = a")
      case False
      with s show ?thesis by (simp add: eq writes_of_def)
    next
      case True
      have "percent u \<le> 10" if "u \<in> set (writes_of a (progress_log q))" for u
      proof -
        from that have "(a, u) \<in> set (progress_log q)" by (simp add: set_writes_of)
        from old_entry[OF this] job p0
        show ?thesis by (auto simp: initial_progress_def)
      qed
      with s True show ?thesis
        by (auto simp: eq writes_of_def sorted_append snapshot_def)
    qed
  qed
  from 1 2 3 4 show ?thesis by (simp add: inv_def)
qed

lemma addJob_eq:
  "addJob u s now rnd date q =
     (make_job_id now rnd,
      q\<lparr>heap := (heap q)(next_addr q \<mapsto> new_job u s now rnd date),
        next_addr := Suc (next_addr q),
        jobs := map_set (make_job_id now rnd) (next_addr q) (jobs q),
        timers := Suc (timers q),
        progress_log := progress_log q @ [(next_addr q, initial_progress)]\<rparr>)"
  by (simp add: addJob_def Let_def new_job_def)

lemma inv_addJob:
  assumes "inv q"
  shows "inv (snd (addJob u s now rnd date q))"
proof -
  have ih: "inv_heap q" and it: "inv_tasks q" and io: "inv_objs q" and il: "inv_log q"
    using assms by (simp_all add: inv_def)
  have lt: "b < next_addr q" if "heap q b \<noteq> None" for b
    using ih that unfolding inv_heap_def by blast
  have old_entry: "\<exists>j. heap q b = Some j \<and> percent w \<le> percent (progress j) \<and>
               (stage w = StageProcessing \<longrightarrow> removeWatermark (settings j))"
    if "(b, w) \<in> set (progress_log q)" for b w
    using il that unfolding inv_log_def by blast
  let ?q = "snd (addJob u s now rnd date q)"
  have 1: "inv_heap ?q" using ih by (rule inv_heap_addJob)
  have 2: "inv_tasks ?q"
    unfolding inv_tasks_def
  proof (intro allI impI)
    fix b p
    assume "tasks ?q b = Some p"
    then have "tasks q b = Some p" by (simp add: addJob_eq)
    then obtain j where j: "pc_ok p" "heap q b = Some j" "status j = StatusProcessing"
      "percent (progress j) = pc_percent p"
      using it unfolding inv_tasks_def by blast
    with lt[of b] show "pc_ok p \<and> (\<exists>j. heap ?q b = Some j \<and> status j = StatusProcessing \<and>
            percent (progress j) = pc_percent p)"
      by (auto simp: addJob_eq)
  qed
  have 3: "inv_objs ?q"
    using io unfolding inv_objs_def
    by (auto simp: addJob_eq new_job_def initial_progress_def split: if_splits)
  have 4: "inv_log ?q"
    unfolding inv_log_def
  proof (intro conjI allI impI)
    fix b w
    assume "(b, w) \<in> set (progress_log ?q)"
    then consider (old) "(b, w) \<in> set (progress_log q)"
      | (new) "b = next_addr q" "w = initial_progress"
      by (auto simp: addJob_eq)
    then show "\<exists>j. heap ?q b = Some j \<and> percent w \<le> percent (progress j) \<and>
                 (stage w = StageProcessing \<longrightarrow> removeWatermark (settings j))"
    proof cases
      case old
      from old_entry[OF old]
      obtain j where j: "heap q b = Some j" "percent w \<le> percent (progress j)"
        "stage w = StageProcessing \<longrightarrow> removeWatermark (settings j)" by blast
      with lt[of b] show ?thesis by (auto simp: addJob_eq)
    next
      case new
      then show ?thesis by (simp add: addJob_eq new_job_def initial_progress_def)
    qed
  next
    fix b
    have s: "sorted (map percent (writes_of b (progress_log q)))"
      using il unfolding inv_log_def by blast
    show "sorted (map percent (writes_of b (progress_log ?q)))"
    proof (cases "b = next_addr q")
      case False
      with s show ?thesis by (simp add: addJob_eq writes_of_def)
    next
      case True
      have "writes_of (next_addr q) (progress_log q) = []"
      proof (rule ccontr)
        assume "writes_of (next_addr q) (progress_log q) \<noteq> []"
        then obtain u where "u \<in> set (writes_of (next_addr q) (progress_log q))"
          by (cases "writes_of (next_addr q) (progress_log q)") auto
        then have "(next_addr q, u) \<in> set (progress_log q)" by (simp add: set_writes_of)
        from old_entry[OF this] lt[of "next_addr q"] show False by auto
      qed
      with True show ?thesis by (simp add: addJob_eq writes_of_def)
    qed
  qed
  from 1 2 3 4 show ?thesis by (simp add: inv_def)
qed

lemma inv_frame [simp]:
  "inv (q\<lparr>timers := n\<rparr>) = inv q"
  "inv (q\<lparr>maxConcurrentJobs := mx\<rparr>) = inv q"
  by (simp_all add: inv_def inv_tasks_def inv_objs_def inv_log_def)

lemma inv_step: "inv q \<Longrightarrow> inv (step e q)"
  by (cases e) (simp_all add: inv_addJob inv_resume inv_processNextJob)

lemma inv_run: "inv q \<Longrightarrow> inv (run es q)"
  by (induction es rule: rev_induct) (simp_all add: run_snoc inv_step)

lemma inv_new: "inv new_queue"
  by (simp add: inv_def inv_heap_def inv_tasks_def inv_objs_def inv_log_def new_queue_def)

section \<open>Executions from a new queue\<close>

lemma inv_reachable: "inv (run es (queue_with_limit n))"
  by (simp add: queue_with_limit_def inv_run inv_new)

subsection \<open>The sample job\<close>

lemma sample_options_simps [simp]:
  "removeWatermark plain_options = False" "format plain_options = ''mp4''"
  "removeWatermark watermark_options = True" "format watermark_options = ''mp4''"
  by (simp_all add: plain_options_def watermark_options_def)

lemmas eval_defs = run_def new_queue_def queue_with_limit_def addJob_def make_job_id_def
  decimal_digits.simps number_string_def digit_char_def processNextJob_def find_queued_def
  modify_def updateProgress_def processJob_start_def set_add_def set_delete_def resume_def
  stage_converting_def simulate_iteration_def finally_block_def getJob_def
  extractMetadata_def downloadVideo_def env_ok_def env_bad_def Let_def

lemma plain_run_log:
  "progress_log (run plain_run (queue_with_limit 3)) = map (Pair 0) plain_run_writes"
  by (simp add: plain_run_def plain_run_writes_def eval_defs snapshot_def
      numeral_2_eq_2[symmetric])

lemma plain_run_registry:
  "getJob (run plain_run (queue_with_limit 3)) ''job_1000_abc'' =
     Some \<lparr>job_id = ''job_1000_abc'', url = sample_url, settings = plain_options,
           status = StatusProcessing,
           progress = snapshot StageFinalizing 100 completed_message,
           result = Some plain_run_result, error = None, createdAt = 1000,
           completedAt = None\<rparr>"
  by (simp add: plain_run_def plain_run_result_def eval_defs snapshot_def)

lemma plain_run_object:
  "heap (run plain_run (queue_with_limit 3)) 0 =
     Some \<lparr>job_id = ''job_1000_abc'', url = sample_url, settings = plain_options,
           status = StatusCompleted,
           progress = snapshot StageFinalizing 100 completed_message,
           result = Some plain_run_result, error = None, createdAt = 1000,
           completedAt = Some 9900\<rparr>"
  by (simp add: plain_run_def plain_run_result_def eval_defs snapshot_def)

lemma plain_run_percents:
  "map percent plain_run_writes =
     [0, 10, 30, 30, 33, 36, 39, 42, 45, 48, 51, 54, 57, 80, 95, 100]"
  by (simp add: plain_run_writes_def initial_progress_def snapshot_def download_snapshot_def
      Let_def)

lemma plain_run_stages:
  "map stage plain_run_writes =
     [StageAnalyzing, StageAnalyzing, StageDownloading, StageDownloading, StageDownloading,
      StageDownloading, StageDownloading, StageDownloading, StageDownloading,
      StageDownloading, StageDownloading, StageDownloading, StageDownloading,
      StageConverting, StageFinalizing, StageFinalizing]"
  by (simp add: plain_run_writes_def initial_progress_def snapshot_def download_snapshot_def
      Let_def)

lemma getJob_addJob:
  "getJob (snd (addJob u s now rnd date q)) (fst (addJob u s now rnd date q)) =
     Some (new_job u s now rnd date)"
  by (simp add: addJob_eq getJob_def map_of_map_set)

lemma getJob_heap: "getJob q k = Some j \<Longrightarrow> \<exists>a. heap q a = Some j"
  by (auto simp: getJob_def split: option.splits)

subsection \<open>Progress percentages\<close>

text \<open>
  C4. For every job object, the percentages of the snapshots assigned to its \<open>progress\<close>
  field, from the one \<open>addJob\<close> creates to the last one \<open>processJob\<close> writes and with the
  sub-steps of the download in between, never decrease, in every execution.
\<close>

theorem progress_percent_nondecreasing:
  "sorted (map percent (writes_of a (progress_log (run es (queue_with_limit n)))))"
  using inv_reachable[of es n] unfolding inv_def inv_log_def by blast

theorem progress_percent_nondecreasing_witness:
  "map percent (writes_of 0 (progress_log (run plain_run (queue_with_limit 3)))) =
     [0, 10, 30, 30, 33, 36, 39, 42, 45, 48, 51, 54, 57, 80, 95, 100] \<and>
   sorted (map percent (writes_of 0 (progress_log (run plain_run (queue_with_limit 3)))))"
  using progress_percent_nondecreasing[of 0 plain_run 3]
  by (simp add: plain_run_log plain_run_percents)

subsection \<open>The conditional stage\<close>

text \<open>
  C8. In every execution, a job whose settings do not ask for watermark removal never has
  a snapshot of stage \<open>processing\<close> assigned to its \<open>progress\<close> field, and no record
  that \<open>getJob\<close> returns for such a job shows that stage.
\<close>

theorem no_processing_stage_without_watermark:
  assumes "q = run es (queue_with_limit n)"
  shows "(\<forall>a w j. (a, w) \<in> set (progress_log q) \<and> heap q a = Some j \<and>
            \<not> removeWatermark (settings j) \<longrightarrow> stage w \<noteq> StageProcessing) \<and>
         (\<forall>k j. getJob q k = Some j \<and> \<not> removeWatermark (settings j) \<longrightarrow>
            stage (progress j) \<noteq> StageProcessing)"
proof -
  have i: "inv q" using assms by (simp add: inv_reachable)
  have 1: "stage w \<noteq> StageProcessing"
    if "(a, w) \<in> set (progress_log q)" "heap q a = Some j" "\<not> removeWatermark (settings j)"
    for a w j
    using i that unfolding inv_def inv_log_def by fastforce
  have 2: "stage (progress j) \<noteq> StageProcessing"
    if "getJob q k = Some j" "\<not> removeWatermark (settings j)" for k j
    using i that getJob_heap[OF that(1)] unfolding inv_def inv_objs_def by blast
  from 1 2 show ?thesis by blast
qed

theorem no_processing_stage_without_watermark_witness:
  "progress_log (run plain_run (queue_with_limit 3)) = map (Pair 0) plain_run_writes \<and>
   map_option (removeWatermark \<circ> settings) (heap (run plain_run (queue_with_limit 3)) 0) =
     Some False \<and>
   StageProcessing \<notin> stage ` set plain_run_writes"
proof -
  let ?q = "run plain_run (queue_with_limit 3)"
  have "stage w \<noteq> StageProcessing" if "w \<in> set plain_run_writes" for w
  proof -
    have "(0, w) \<in> set (progress_log ?q)" using that by (simp add: plain_run_log)
    moreover have "\<not> removeWatermark (settings (the (heap ?q 0)))"
      by (simp add: plain_run_object)
    moreover have "heap ?q 0 = Some (the (heap ?q 0))" by (simp add: plain_run_object)
    ultimately show ?thesis
      using no_processing_stage_without_watermark[OF refl, of plain_run 3] by blast
  qed
  then have "StageProcessing \<notin> stage ` set plain_run_writes" by force
  then show ?thesis by (simp add: plain_run_log plain_run_object)
qed

subsection \<open>Queued records\<close>

text \<open>
  C10. The record that \<open>addJob\<close> creates is \<open>queued\<close> with a snapshot of stage
  \<open>analyzing\<close>, percent 0 and the message "Job queued for processing", and \<open>getJob\<close>
  returns it under the identifier \<open>addJob\<close> returned. In every execution, every record
  that \<open>getJob\<close> returns with status \<open>queued\<close> still shows that snapshot. The stage has
  no other values than the five of the pipeline.
\<close>

theorem queued_job_shows_analyzing:
  "(\<exists>j. getJob (snd (addJob u s now rnd date q)) (fst (addJob u s now rnd date q)) = Some j \<and>
        status j = StatusQueued \<and> progress j = initial_progress) \<and>
   (\<forall>k j. getJob (run es (queue_with_limit n)) k = Some j \<and> status j = StatusQueued \<longrightarrow>
        progress j = initial_progress) \<and>
   stage initial_progress = StageAnalyzing \<and> percent initial_progress = 0 \<and>
   message initial_progress = ''Job queued for processing'' \<and>
   (\<forall>st. st \<in> {StageAnalyzing, StageDownloading, StageProcessing, StageConverting,
                StageFinalizing})"
proof (intro conjI allI impI)
  show "\<exists>j. getJob (snd (addJob u s now rnd date q)) (fst (addJob u s now rnd date q)) = Some j \<and>
        status j = StatusQueued \<and> progress j = initial_progress"
    by (simp add: getJob_addJob new_job_def)
next
  fix k j
  assume h: "getJob (run es (queue_with_limit n)) k = Some j \<and> status j = StatusQueued"
  then obtain a where "heap (run es (queue_with_limit n)) a = Some j"
    using getJob_heap by blast
  with inv_reachable[of es n] h show "progress j = initial_progress"
    unfolding inv_def inv_objs_def by blast
next
  fix st
  show "st \<in> {StageAnalyzing, StageDownloading, StageProcessing, StageConverting,
                StageFinalizing}"
    by (cases st) simp_all
qed (simp_all add: initial_progress_def queued_message_def)

theorem queued_job_shows_analyzing_witness:
  "map_option (\<lambda>j. (status j, stage (progress j), percent (progress j), message (progress j)))
     (getJob (run two_submits (queue_with_limit 3)) ''job_1001_xyz'') =
   Some (StatusQueued, StageAnalyzing, 0, ''Job queued for processing'')"
proof -
  let ?q = "run two_submits (queue_with_limit 3)"
  have "map_option status (getJob ?q ''job_1001_xyz'') = Some StatusQueued"
    by (simp add: two_submits_def eval_defs)
  then obtain j where j: "getJob ?q ''job_1001_xyz'' = Some j" "status j = StatusQueued"
    by auto
  with queued_job_shows_analyzing[of sample_url plain_options 0 "[]" 0 new_queue two_submits 3]
  have "progress j = initial_progress" by blast
  with j show ?thesis by (simp add: initial_progress_def queued_message_def)
qed

subsection \<open>The keys of the registry\<close>

lemma keys_updateProgress:
  assumes "inv_heap q"
  shows "map fst (jobs (updateProgress a st p msg q)) = map fst (jobs q)"
proof (cases "heap q a")
  case None
  then show ?thesis by (simp add: updateProgress_def)
next
  case (Some job)
  then have "map_of (jobs q) (job_id job) \<noteq> None"
    using assms unfolding inv_heap_def by blast
  then have "job_id job \<in> set (map fst (jobs q))"
    by (simp add: map_of_None_iff)
  then show ?thesis
    by (simp add: updateProgress_Some[OF Some] keys_map_set del: set_map)
qed

lemma keys_processJob_step:
  assumes "inv_heap q"
  shows "map fst (jobs (result_state (processJob_step x a job p q))) = map fst (jobs q)"
  using assms
  by (cases p; simp add: stage_converting_def Let_def keys_updateProgress
        inv_heap_simulate_iteration inv_heap_modify inv_heap_updateProgress
        split: option.splits sum.splits)

lemma keys_resume:
  assumes "inv_heap q"
  shows "map fst (jobs (resume x a q)) = map fst (jobs q)"
  using assms by (simp add: resume_def keys_processJob_step split: option.splits)

lemma keys_processNextJob:
  assumes "inv_heap q"
  shows "map fst (jobs (processNextJob q)) = map fst (jobs q)"
  using assms
  by (simp add: processNextJob_def processJob_start_def Let_def keys_updateProgress
        inv_heap_modify split: option.splits)

lemma keys_addJob:
  "map fst (jobs (snd (addJob u s now rnd date q))) =
     (if make_job_id now rnd \<in> set (map fst (jobs q)) then map fst (jobs q)
      else map fst (jobs q) @ [make_job_id now rnd])"
  by (simp add: addJob_eq keys_map_set del: set_map)

lemma issued_append: "issued (es @ es') = issued es @ issued es'"
  by (induction es rule: issued.induct) simp_all

lemma find_append: "find P (xs @ ys) = (case find P xs of None \<Rightarrow> find P ys | Some x \<Rightarrow> Some x)"
  by (induction xs) auto

lemma find_snoc_member:
  assumes "k \<in> set xs"
  shows "find P (xs @ [k]) = find P xs"
proof (cases "find P xs")
  case None
  then have "\<not> P k" using assms by (simp add: find_None_iff)
  with None show ?thesis by (simp add: find_append)
next
  case (Some x)
  then show ?thesis by (simp add: find_append)
qed

lemma keys_run_set:
  "set (map fst (jobs (run es (queue_with_limit n)))) = set (issued es)"
proof (induction es rule: rev_induct)
  case Nil
  show ?case by (simp add: queue_with_limit_def new_queue_def)
next
  case (snoc e es)
  have ih: "inv_heap (run es (queue_with_limit n))"
    using inv_reachable[of es n] by (simp add: inv_def)
  show ?case
  proof (cases e)
    case (AddJob u s now rnd date)
    then show ?thesis using snoc
      by (auto simp: run_snoc issued_append keys_addJob simp del: set_map)
  next
    case Timer
    then show ?thesis using snoc ih
      by (simp add: run_snoc issued_append keys_processNextJob del: set_map)
  next
    case (Resume a x)
    then show ?thesis using snoc ih
      by (simp add: run_snoc issued_append keys_resume del: set_map)
  qed
qed

lemma keys_run_find:
  "find P (map fst (jobs (run es (queue_with_limit n)))) = find P (issued es)"
proof (induction es rule: rev_induct)
  case Nil
  show ?case by (simp add: queue_with_limit_def new_queue_def)
next
  case (snoc e es)
  have ih: "inv_heap (run es (queue_with_limit n))"
    using inv_reachable[of es n] by (simp add: inv_def)
  show ?case
  proof (cases e)
    case (AddJob u s now rnd date)
    show ?thesis
    proof (cases "make_job_id now rnd \<in> set (issued es)")
      case True
      then show ?thesis using snoc AddJob keys_run_set[of es n]
        by (simp add: run_snoc issued_append keys_addJob find_snoc_member del: set_map)
    next
      case False
      then show ?thesis using snoc AddJob keys_run_set[of es n]
        by (simp add: run_snoc issued_append keys_addJob find_append del: set_map)
    qed
  next
    case Timer
    then show ?thesis using snoc ih
      by (simp add: run_snoc issued_append keys_processNextJob del: set_map)
  next
    case (Resume a x)
    then show ?thesis using snoc ih
      by (simp add: run_snoc issued_append keys_resume del: set_map)
  qed
qed


lemma getJob_id:
  assumes "inv_heap q" "getJob q k = Some j"
  shows "job_id j = k"
  using assms unfolding inv_heap_def getJob_def
  by (fastforce split: option.splits)



subsection \<open>Dispatch order\<close>

lemma find_registry:
  assumes "distinct (map fst m)"
  shows "find P (map snd m) =
     (case find (\<lambda>k. case map_of m k of None \<Rightarrow> False | Some a \<Rightarrow> P a) (map fst m) of
        None \<Rightarrow> None
      | Some k \<Rightarrow> map_of m k)"
  using assms
proof (induction m)
  case Nil
  show ?case by simp
next
  case (Cons e m)
  obtain k a where e: "e = (k, a)" by (cases e)
  have d: "distinct (map fst m)" and k: "k \<notin> set (map fst m)"
    using Cons.prems by (simp_all add: e)
  let ?Q = "\<lambda>m' k'. case map_of m' k' of None \<Rightarrow> False | Some a' \<Rightarrow> P a'"
  have same: "find (?Q ((k, a) # m)) (map fst m) = find (?Q m) (map fst m)"
    using k by (intro find_cong) auto
  show ?case
  proof (cases "P a")
    case True
    then show ?thesis by (simp add: e)
  next
    case False
    have "find (?Q m) (map fst m) = Some k' \<Longrightarrow> k' \<noteq> k" for k'
      using k by (auto simp: find_Some_iff)
    then show ?thesis
      using False Cons.IH[OF d] same
      by (auto simp: e split: option.splits)
  qed
qed

lemma find_queued_registry:
  assumes "inv_heap q"
  shows "find_queued q =
     (case find (queued_id q) (map fst (jobs q)) of None \<Rightarrow> None | Some k \<Rightarrow> map_of (jobs q) k)"
proof -
  have d: "distinct (map fst (jobs q))" using assms by (simp add: inv_heap_def)
  have "queued_id q =
     (\<lambda>k. case map_of (jobs q) k of None \<Rightarrow> False
          | Some a \<Rightarrow> (case heap q a of None \<Rightarrow> False | Some job \<Rightarrow> status job = StatusQueued))"
    by (auto simp: queued_id_def getJob_def fun_eq_iff split: option.splits)
  then show ?thesis
    unfolding find_queued_def by (simp add: find_registry[OF d])
qed

lemma maxConcurrentJobs_step [simp]: "maxConcurrentJobs (step e q) = maxConcurrentJobs q"
  by (cases e) (simp_all add: addJob_eq processNextJob_def processJob_start_def Let_def
      split: option.splits)

lemma maxConcurrentJobs_run [simp]: "maxConcurrentJobs (run es q) = maxConcurrentJobs q"
  by (induction es rule: rev_induct) (simp_all add: run_snoc)

lemma issued_submitted: "issued es = map job_id (submitted es)"
  by (induction es rule: submitted.induct) (simp_all add: new_job_def)

lemma submitted_append: "submitted (es @ es') = submitted es @ submitted es'"
  by (induction es rule: submitted.induct) simp_all

lemma submitted_status: "j \<in> set (submitted es) \<Longrightarrow> status j = StatusQueued"
  by (induction es rule: submitted.induct) (auto simp: new_job_def)

lemma find_map: "find P (map f xs) = map_option f (find (\<lambda>x. P (f x)) xs)"
  by (induction xs) simp_all

text \<open>
  An object that is \<open>queued\<close> after a step was so before, or the step has created it.
\<close>

lemma queued_step:
  assumes "inv q" "heap (step e q) b = Some j" "status j = StatusQueued"
  shows "heap q b = Some j \<or> [j] = submitted [e]"
proof (cases e)
  case (AddJob u s now rnd date)
  with assms(2) show ?thesis by (auto simp: addJob_eq split: if_splits)
next
  case Timer
  let ?q0 = "q\<lparr>timers := timers q - 1\<rparr>"
  show ?thesis
  proof (cases "timers q \<noteq> 0 \<and> length (activeJobs ?q0) < maxConcurrentJobs ?q0 \<and>
      find_queued ?q0 \<noteq> None")
    case False
    then have "heap (step Timer q) = heap q"
      by (auto simp: processNextJob_idle)
    with assms(2) Timer show ?thesis by simp
  next
    case True
    then obtain a where a: "find_queued ?q0 = Some a" by auto
    then obtain job where job: "heap ?q0 a = Some job" using find_queued_Some by blast
    have lim: "length (activeJobs ?q0) < maxConcurrentJobs ?q0" using True by simp
    have "step Timer q = processNextJob ?q0" using True by simp
    with assms(2,3) Timer show ?thesis
      unfolding processNextJob_admit[OF lim a job]
      by (auto split: if_splits)
  qed
next
  case (Resume a x)
  have ih: "inv_heap q" and it: "inv_tasks q" using assms(1) by (simp_all add: inv_def)
  have h: "heap (resume x a q) b = Some j" using assms(2) Resume by simp
  show ?thesis
  proof (cases "tasks q a")
    case None
    then have "resume x a q = q" by (simp add: resume_def)
    with h show ?thesis by simp
  next
    case (Some p)
    then obtain job where job: "pc_ok p" "heap q a = Some job" "status job = StatusProcessing"
      using it unfolding inv_tasks_def by blast
    show ?thesis
    proof (cases "b = a")
      case True
      from resume_self[OF ih Some job(2) job(1), of x] h True job(3) assms(3)
      show ?thesis by (auto split: option.splits)
    next
      case False
      show ?thesis
      proof (cases "heap q b")
        case None
        from resume_new[OF ih Some job(2) None h] job(3) assms(3)
        show ?thesis by simp
      next
        case (Some j0)
        then have "b < next_addr q" using ih unfolding inv_heap_def by fastforce
        then have "heap (resume x a q) b = heap q b"
          using False by (rule resume_heap_other[rotated])
        with h show ?thesis by simp
      qed
    qed
  qed
qed

lemma queued_submitted:
  assumes "heap (run es (queue_with_limit n)) b = Some j" "status j = StatusQueued"
  shows "j \<in> set (submitted es)"
  using assms
proof (induction es arbitrary: b j rule: rev_induct)
  case Nil
  then show ?case by (simp add: queue_with_limit_def new_queue_def)
next
  case (snoc e es)
  from queued_step[OF inv_reachable[of es n], of e b j] snoc.prems
  have "heap (run es (queue_with_limit n)) b = Some j \<or> [j] = submitted [e]"
    by (simp add: run_snoc)
  then show ?case
  proof
    assume "heap (run es (queue_with_limit n)) b = Some j"
    from snoc.IH[OF this snoc.prems(2)] show ?thesis by (simp add: submitted_append)
  next
    assume "[j] = submitted [e]"
    then have "j \<in> set (submitted [e])" by (metis list.set_intros(1))
    then show ?thesis by (simp add: submitted_append)
  qed
qed

text \<open>
  When no identifier has been issued twice, the record under the identifier of a job is
  \<open>queued\<close> exactly when it still is the record that \<open>addJob\<close> created for that job.
\<close>

lemma still_queued_iff:
  assumes "q = run es (queue_with_limit n)" "distinct (issued es)" "j \<in> set (submitted es)"
  shows "queued_id q (job_id j) \<longleftrightarrow> still_queued q j"
proof
  assume "queued_id q (job_id j)"
  then obtain j' where j': "getJob q (job_id j) = Some j'" "status j' = StatusQueued"
    by (auto simp: queued_id_def split: option.splits)
  have ih: "inv_heap q" using assms(1) inv_reachable[of es n] by (simp add: inv_def)
  have "job_id j' = job_id j" using getJob_id[OF ih j'(1)] .
  moreover obtain b where "heap q b = Some j'" using getJob_heap[OF j'(1)] by blast
  then have "j' \<in> set (submitted es)"
    using j'(2) queued_submitted unfolding assms(1) by blast
  moreover have "inj_on job_id (set (submitted es))"
    using assms(2) by (simp add: issued_submitted distinct_map)
  ultimately have "j' = j" using assms(3) by (auto dest: inj_onD)
  with j' show "still_queued q j" by (simp add: still_queued_def)
next
  assume "still_queued q j"
  then show "queued_id q (job_id j)"
    using submitted_status[OF assms(3)] by (simp add: still_queued_def queued_id_def)
qed

text \<open>
  The dispatch does not always admit the oldest job that is still \<open>queued\<close>. In
  \<open>collide_submits\<close> three jobs are submitted, and the third gets the identifier of the
  first: \<open>this.jobs.set\<close> puts the third job at the place of the first in the registry,
  in front of the second. All three objects are \<open>queued\<close>. The dispatch that follows
  admits the third job; the second job, submitted before it, stays \<open>queued\<close>, and the
  first job is no longer in the registry.
\<close>

theorem dispatch_admits_later_submission:
  "map url (submitted collide_submits) = [sample_url, second_url, third_url] \<and>
   issued collide_submits = [''job_1000_abc'', ''job_1000_xyz'', ''job_1000_abc''] \<and>
   map (\<lambda>a. map_option (\<lambda>j. (url j, status j)) (heap (run collide_submits (queue_with_limit 1)) a))
     [0, 1, 2] =
     [Some (sample_url, StatusQueued), Some (second_url, StatusQueued),
      Some (third_url, StatusQueued)] \<and>
   map (\<lambda>a. map_option (\<lambda>j. (url j, status j))
          (heap (run (collide_submits @ [Timer]) (queue_with_limit 1)) a)) [0, 1, 2] =
     [Some (sample_url, StatusQueued), Some (second_url, StatusQueued),
      Some (third_url, StatusProcessing)] \<and>
   map (\<lambda>k. map_option (\<lambda>j. (url j, status j))
          (getJob (run (collide_submits @ [Timer]) (queue_with_limit 1)) k))
     [''job_1000_abc'', ''job_1000_xyz''] =
     [Some (third_url, StatusProcessing), Some (second_url, StatusQueued)] \<and>
   tasks (run (collide_submits @ [Timer]) (queue_with_limit 1)) 2 = Some AwaitAnalyze"
  by (simp add: collide_submits_def eval_defs new_job_def numeral_2_eq_2[symmetric])

text \<open>
  C3 (amended). In every execution, when a dispatch timer fires while fewer jobs are
  active than the limit allows, the record admitted is the one under the identifier that
  \<open>addJob\<close> returned earliest among the identifiers whose record is still \<open>queued\<close>:
  it becomes \<open>processing\<close> with the first snapshot of stage \<open>analyzing\<close>, its execution
  starts, and the record of every other identifier stays as it was. When the identifiers
  issued so far are pairwise different, the job admitted is the oldest job still
  \<open>queued\<close>: the first, in the order of submission, whose record is still as \<open>addJob\<close>
  created it; and every other submitted job is still queued afterwards exactly if it was
  before.
\<close>

theorem dispatch_admits_earliest_queued:
  assumes "q = run es (queue_with_limit n)"
    and "0 < timers q"
    and "length (activeJobs q) < n"
    and "find (queued_id q) (issued es) = Some k"
  shows "(\<exists>a job. map_of (jobs q) k = Some a \<and> heap q a = Some job \<and>
           job_id job = k \<and> status job = StatusQueued \<and> tasks q a = None \<and>
           tasks (step Timer q) a = Some AwaitAnalyze \<and>
           activeJobs (step Timer q) = set_add k (activeJobs q) \<and>
           getJob (step Timer q) k =
             Some (job\<lparr>status := StatusProcessing,
                       progress := snapshot StageAnalyzing 10
                         analyzing_message\<rparr>) \<and>
           (\<forall>k'. k' \<noteq> k \<longrightarrow> getJob (step Timer q) k' = getJob q k')) \<and>
         (distinct (issued es) \<longrightarrow>
            (\<exists>job. find (still_queued q) (submitted es) = Some job \<and> job_id job = k \<and>
               getJob (step Timer q) k =
                 Some (job\<lparr>status := StatusProcessing,
                           progress := snapshot StageAnalyzing 10
                             analyzing_message\<rparr>) \<and>
               (\<forall>j \<in> set (submitted es). j \<noteq> job \<longrightarrow>
                  still_queued (step Timer q) j = still_queued q j)))"
proof -
  have i: "inv q" using assms(1) by (simp add: inv_reachable)
  then have ih: "inv_heap q" and it: "inv_tasks q" by (simp_all add: inv_def)
  let ?q0 = "q\<lparr>timers := timers q - 1\<rparr>"
  have st: "step Timer q = processNextJob ?q0" using assms(2) by simp
  have fk: "find (queued_id q) (map fst (jobs q)) = Some k"
    using assms(1,4) keys_run_find[of "queued_id q" es n] by simp
  have fq: "find_queued q = map_of (jobs q) k"
    by (simp add: find_queued_registry[OF ih] fk)
  have qk: "queued_id q k"
    using fk by (auto simp: find_Some_iff)
  from qk obtain a job where a: "map_of (jobs q) k = Some a" and job: "heap q a = Some job"
    and sj: "status job = StatusQueued"
    by (auto simp: queued_id_def getJob_def split: option.splits)
  have idk: "job_id job = k" using ih a job unfolding inv_heap_def by fastforce
  have a_lt: "a < next_addr q" using ih job unfolding inv_heap_def by fastforce
  have ta: "tasks q a = None"
  proof (cases "tasks q a")
    case (Some p)
    then show ?thesis using it job sj unfolding inv_tasks_def by fastforce
  qed simp
  have lim: "length (activeJobs ?q0) < maxConcurrentJobs ?q0"
    using assms(1,3) by (simp add: queue_with_limit_def)
  have fq0: "find_queued ?q0 = Some a" using fq a by (simp add: find_queued_def)
  have job0: "heap ?q0 a = Some job" using job by simp
  note eq = processNextJob_admit[OF lim fq0 job0]
  have other: "getJob (step Timer q) k' = getJob q k'" if "k' \<noteq> k" for k'
  proof (cases "map_of (jobs q) k'")
    case None
    then show ?thesis using that unfolding st eq
      by (simp add: getJob_def map_of_map_set idk)
  next
    case (Some a')
    then obtain j' where j': "heap q a' = Some j'" "job_id j' = k'"
      using ih unfolding inv_heap_def by blast
    then have "a' \<noteq> a" "a' < next_addr q"
      using that job idk ih unfolding inv_heap_def by fastforce+
    then show ?thesis using that Some unfolding st eq
      by (simp add: getJob_def map_of_map_set idk)
  qed
  have after: "getJob (step Timer q) k =
          Some (job\<lparr>status := StatusProcessing,
                    progress := snapshot StageAnalyzing 10
                      analyzing_message\<rparr>)"
    unfolding st eq by (simp add: getJob_def map_of_map_set idk)
  have started: "tasks (step Timer q) a = Some AwaitAnalyze"
    unfolding st eq by simp
  have active: "activeJobs (step Timer q) = set_add k (activeJobs q)"
    unfolding st eq by (simp add: idk)
  have first: "\<exists>a job. map_of (jobs q) k = Some a \<and> heap q a = Some job \<and>
           job_id job = k \<and> status job = StatusQueued \<and> tasks q a = None \<and>
           tasks (step Timer q) a = Some AwaitAnalyze \<and>
           activeJobs (step Timer q) = set_add k (activeJobs q) \<and>
           getJob (step Timer q) k =
             Some (job\<lparr>status := StatusProcessing,
                       progress := snapshot StageAnalyzing 10
                         analyzing_message\<rparr>) \<and>
           (\<forall>k'. k' \<noteq> k \<longrightarrow> getJob (step Timer q) k' = getJob q k')"
    using a job idk sj ta other after started active by blast
  have second: "\<exists>job. find (still_queued q) (submitted es) = Some job \<and> job_id job = k \<and>
               getJob (step Timer q) k =
                 Some (job\<lparr>status := StatusProcessing,
                           progress := snapshot StageAnalyzing 10
                             analyzing_message\<rparr>) \<and>
               (\<forall>j \<in> set (submitted es). j \<noteq> job \<longrightarrow>
                  still_queued (step Timer q) j = still_queued q j)"
    if d: "distinct (issued es)"
  proof -
    have "find (\<lambda>j. queued_id q (job_id j)) (submitted es) = find (still_queued q) (submitted es)"
      using still_queued_iff[OF assms(1) d] by (intro find_cong) simp_all
    with assms(4) obtain j0 where j0: "find (still_queued q) (submitted es) = Some j0"
      "job_id j0 = k"
      by (auto simp: issued_submitted find_map)
    then have "still_queued q j0" by (auto simp: find_Some_iff)
    then have "j0 = job" using a job j0(2) by (simp add: still_queued_def getJob_def)
    have inj: "inj_on job_id (set (submitted es))"
      using d by (simp add: issued_submitted distinct_map)
    have "job \<in> set (submitted es)"
      using j0(1) \<open>j0 = job\<close> by (auto simp: find_Some_iff)
    then have "job_id j \<noteq> k" if "j \<in> set (submitted es)" "j \<noteq> job" for j
      using that inj idk by (auto dest: inj_onD)
    then have "still_queued (step Timer q) j = still_queued q j"
      if "j \<in> set (submitted es)" "j \<noteq> job" for j
      using that other by (simp add: still_queued_def)
    with j0 \<open>j0 = job\<close> after show ?thesis by blast
  qed
  from first second show ?thesis by blast
qed

theorem dispatch_admits_earliest_queued_witness:
  "issued fifo_submits = [''job_1_a'', ''job_2_b'', ''job_3_c'', ''job_4_d''] \<and>
   distinct (issued fifo_submits) \<and>
   map url (submitted fifo_submits) = [''A'', ''B'', ''C'', ''D''] \<and>
   map_option url
     (find (still_queued (run fifo_submits (queue_with_limit 1))) (submitted fifo_submits)) =
     Some ''A'' \<and>
   map (\<lambda>k. map_option (\<lambda>j. (url j, status j))
          (getJob (run (fifo_submits @ [Timer]) (queue_with_limit 1)) k))
     (issued fifo_submits) =
     [Some (''A'', StatusProcessing), Some (''B'', StatusQueued), Some (''C'', StatusQueued),
      Some (''D'', StatusQueued)] \<and>
   map fst (filter (\<lambda>e. percent (snd e) = 10) (progress_log (run fifo_run (queue_with_limit 1)))) =
     [0, 1, 2, 3] \<and>
   map (\<lambda>a. map_option url (heap (run fifo_run (queue_with_limit 1)) a)) [0, 1, 2, 3] =
     [Some ''A'', Some ''B'', Some ''C'', Some ''D'']"
proof -
  let ?q = "run fifo_submits (queue_with_limit 1)"
  have i: "issued fifo_submits = [''job_1_a'', ''job_2_b'', ''job_3_c'', ''job_4_d'']"
    by (simp add: fifo_submits_def make_job_id_def number_string_def decimal_digits.simps
        digit_char_def)
  have d: "distinct (issued fifo_submits)" unfolding i by simp
  have u: "map url (submitted fifo_submits) = [''A'', ''B'', ''C'', ''D'']"
    by (simp add: fifo_submits_def new_job_def)
  have h1: "0 < timers ?q" and h2: "length (activeJobs ?q) < 1"
    by (simp_all add: fifo_submits_def eval_defs)
  have h3: "find (queued_id ?q) (issued fifo_submits) = Some ''job_1_a''"
    unfolding i by (simp add: fifo_submits_def eval_defs queued_id_def)
  have st: "map (\<lambda>k. map_option (\<lambda>j. (url j, status j)) (getJob ?q k)) (issued fifo_submits) =
     [Some (''A'', StatusQueued), Some (''B'', StatusQueued), Some (''C'', StatusQueued),
      Some (''D'', StatusQueued)]"
    unfolding i by (simp add: fifo_submits_def eval_defs)
  note t = dispatch_admits_earliest_queued[OF refl h1 h2 h3]
  from t obtain a job where job: "map_of (jobs ?q) ''job_1_a'' = Some a" "heap ?q a = Some job"
    and after: "getJob (step Timer ?q) ''job_1_a'' =
      Some (job\<lparr>status := StatusProcessing,
                progress := snapshot StageAnalyzing 10 analyzing_message\<rparr>)"
    and other: "\<forall>k'. k' \<noteq> ''job_1_a'' \<longrightarrow> getJob (step Timer ?q) k' = getJob ?q k'"
    by blast
  have "getJob ?q ''job_1_a'' = Some job" using job by (simp add: getJob_def)
  with st have uj: "url job = ''A''" unfolding i by simp
  from t d obtain j0 where j0: "find (still_queued ?q) (submitted fifo_submits) = Some j0"
    and "getJob (step Timer ?q) ''job_1_a'' =
      Some (j0\<lparr>status := StatusProcessing,
               progress := snapshot StageAnalyzing 10 analyzing_message\<rparr>)"
    by blast
  with after have "url (j0\<lparr>status := StatusProcessing,
               progress := snapshot StageAnalyzing 10 analyzing_message\<rparr>) =
      url (job\<lparr>status := StatusProcessing,
               progress := snapshot StageAnalyzing 10 analyzing_message\<rparr>)"
    by simp
  then have "url j0 = url job" by simp
  with j0 uj have f: "map_option url (find (still_queued ?q) (submitted fifo_submits)) = Some ''A''"
    by simp
  from st after other uj
  have 1: "map (\<lambda>k. map_option (\<lambda>j. (url j, status j))
          (getJob (run (fifo_submits @ [Timer]) (queue_with_limit 1)) k))
     (issued fifo_submits) =
     [Some (''A'', StatusProcessing), Some (''B'', StatusQueued), Some (''C'', StatusQueued),
      Some (''D'', StatusQueued)]"
    unfolding i run_snoc by simp
  have 2: "map fst (filter (\<lambda>e. percent (snd e) = 10)
       (progress_log (run fifo_run (queue_with_limit 1)))) = [0, 1, 2, 3]"
    by (simp add: fifo_run_def fifo_submits_def eval_defs initial_progress_def)
  have 3: "map (\<lambda>a. map_option url (heap (run fifo_run (queue_with_limit 1)) a)) [0, 1, 2, 3] =
     [Some ''A'', Some ''B'', Some ''C'', Some ''D'']"
    by (simp add: fifo_run_def fifo_submits_def eval_defs initial_progress_def)
  from i d u f 1 2 3 show ?thesis by blast
qed

subsection \<open>The active set\<close>

lemma length_set_add: "length (set_add x xs) \<le> Suc (length xs)"
  by (simp add: set_add_def)

lemma length_set_delete: "length (set_delete x xs) \<le> length xs"
  by (simp add: set_delete_def)

lemma active_processNextJob:
  assumes "length (activeJobs q) \<le> maxConcurrentJobs q"
  shows "length (activeJobs (processNextJob q)) \<le> maxConcurrentJobs q"
proof (cases "length (activeJobs q) < maxConcurrentJobs q \<and> find_queued q \<noteq> None")
  case False
  then have "processNextJob q = q" by (intro processNextJob_idle) auto
  with assms show ?thesis by simp
next
  case True
  then obtain a where a: "find_queued q = Some a" by auto
  then obtain job where job: "heap q a = Some job" using find_queued_Some by blast
  show ?thesis
    using True length_set_add[of "job_id job" "activeJobs q"]
    unfolding processNextJob_admit[OF conjunct1[OF True] a job] by simp
qed

lemma active_settle:
  "length (activeJobs (settle x a jid r)) \<le> length (activeJobs (result_state r))"
  by (cases r) (simp_all add: finally_block_def length_set_delete)

lemma active_resume: "length (activeJobs (resume x a q)) \<le> length (activeJobs q)"
  using active_settle[of x a _ "processJob_step x a _ _ q"]
  by (auto simp: resume_def split: option.splits)

lemma active_step:
  "length (activeJobs q) \<le> maxConcurrentJobs q \<Longrightarrow>
   length (activeJobs (step e q)) \<le> maxConcurrentJobs q"
proof (cases e)
  case (AddJob u s now rnd date)
  then show "length (activeJobs q) \<le> maxConcurrentJobs q \<Longrightarrow> ?thesis"
    by (simp add: addJob_eq)
next
  case Timer
  then show "length (activeJobs q) \<le> maxConcurrentJobs q \<Longrightarrow> ?thesis"
    using active_processNextJob[of "q\<lparr>timers := timers q - 1\<rparr>"] by simp
next
  case (Resume a x)
  then show "length (activeJobs q) \<le> maxConcurrentJobs q \<Longrightarrow> ?thesis"
    using active_resume[of x a q] by simp
qed

lemma active_le_limit: "length (activeJobs (run es (queue_with_limit n))) \<le> n"
proof (induction es rule: rev_induct)
  case Nil
  show ?case by (simp add: queue_with_limit_def new_queue_def)
next
  case (snoc e es)
  then show ?case
    using active_step[of "run es (queue_with_limit n)" e]
    by (simp add: run_snoc queue_with_limit_def)
qed

lemma dispatch_at_limit:
  "maxConcurrentJobs q \<le> length (activeJobs q) \<Longrightarrow> step Timer q = q \<or>
   step Timer q = q\<lparr>timers := timers q - 1\<rparr>"
  by (simp add: processNextJob_def)

subsection \<open>What the registry holds\<close>

lemma processJob_step_registry:
  assumes "heap q a = Some job"
    and "map_of (jobs (result_state (processJob_step x a job p q))) k = Some b"
  shows "map_of (jobs q) k = Some b \<or> b = next_addr q"
  using assms
  by (cases p; simp add: stage_converting_def Let_def updateProgress_def map_of_map_set
        split: option.splits sum.splits if_splits)

lemma resume_registry:
  assumes "map_of (jobs (resume x a q)) k = Some b"
  shows "map_of (jobs q) k = Some b \<or> (b = next_addr q \<and> tasks q a \<noteq> None \<and> heap q a \<noteq> None)"
  using assms processJob_step_registry[of q a _ x _ k b]
  by (auto simp: resume_def split: option.splits)

lemma inv_registry_resume:
  assumes "inv q" "inv_registry q"
  shows "inv_registry (resume x a q)"
  unfolding inv_registry_def
proof (intro allI impI)
  fix k b
  assume m: "map_of (jobs (resume x a q)) k = Some b"
  have ih: "inv_heap q" and it: "inv_tasks q" using assms(1) by (simp_all add: inv_def)
  have fresh: "heap q (next_addr q) = None" "tasks q (next_addr q) = None"
  proof -
    show h: "heap q (next_addr q) = None"
      using ih unfolding inv_heap_def by (metis less_irrefl)
    show "tasks q (next_addr q) = None"
    proof (cases "tasks q (next_addr q)")
      case (Some p)
      then show ?thesis using it h unfolding inv_tasks_def by fastforce
    qed simp
  qed
  from resume_registry[OF m]
  show "tasks (resume x a q) b = None \<and>
        (\<exists>j. heap (resume x a q) b = Some j \<and>
             (status j = StatusQueued \<or> status j = StatusProcessing))"
  proof
    assume old: "map_of (jobs q) k = Some b"
    then have tb: "tasks q b = None" and hb: "\<exists>j. heap q b = Some j \<and>
        (status j = StatusQueued \<or> status j = StatusProcessing)"
      using assms(2) unfolding inv_registry_def by blast+
    show ?thesis
    proof (cases "tasks q a")
      case None
      then have "resume x a q = q" by (simp add: resume_def)
      with tb hb show ?thesis by simp
    next
      case (Some p)
      with tb have ne: "b \<noteq> a" by auto
      from hb have "b < next_addr q" using ih unfolding inv_heap_def by fastforce
      then have "heap (resume x a q) b = heap q b"
        using ne by (rule resume_heap_other[rotated])
      with tb hb ne show ?thesis by (simp add: resume_tasks_other)
    qed
  next
    assume new: "b = next_addr q \<and> tasks q a \<noteq> None \<and> heap q a \<noteq> None"
    then obtain p job where p: "tasks q a = Some p" and job: "heap q a = Some job" by auto
    then have sj: "status job = StatusProcessing" using it unfolding inv_tasks_def by fastforce
    have ne: "b \<noteq> a" using new fresh job by auto
    have "heap (resume x a q) b \<noteq> None"
      using m inv_heap_resume[OF ih, of x a] unfolding inv_heap_def by blast
    then obtain j where j: "heap (resume x a q) b = Some j" by auto
    from resume_new[OF ih p job _ j] new fresh have "status j = status job" by simp
    with j sj ne new fresh show ?thesis by (simp add: resume_tasks_other)
  qed
qed

lemma inv_registry_processNextJob:
  assumes "inv q" "inv_registry q"
  shows "inv_registry (processNextJob q)"
proof (cases "length (activeJobs q) < maxConcurrentJobs q \<and> find_queued q \<noteq> None")
  case False
  then have "processNextJob q = q" by (intro processNextJob_idle) auto
  with assms show ?thesis by simp
next
  case True
  then obtain a where a: "find_queued q = Some a" by auto
  then obtain job where job: "heap q a = Some job" "status job = StatusQueued"
    using find_queued_Some by blast
  have ih: "inv_heap q" and it: "inv_tasks q" using assms(1) by (simp_all add: inv_def)
  note eq = processNextJob_admit[OF conjunct1[OF True] a job(1)]
  have fresh: "heap q (next_addr q) = None"
    using ih unfolding inv_heap_def by (metis less_irrefl)
  have tfresh: "tasks q (next_addr q) = None"
  proof (cases "tasks q (next_addr q)")
    case (Some p)
    then show ?thesis using it fresh unfolding inv_tasks_def by fastforce
  qed simp
  have ne: "a \<noteq> next_addr q" using job fresh by auto
  show ?thesis
    unfolding inv_registry_def
  proof (intro allI impI)
    fix k b
    assume m: "map_of (jobs (processNextJob q)) k = Some b"
    show "tasks (processNextJob q) b = None \<and>
          (\<exists>j. heap (processNextJob q) b = Some j \<and>
               (status j = StatusQueued \<or> status j = StatusProcessing))"
    proof (cases "k = job_id job")
      case True
      with m have "b = next_addr q" unfolding eq by (simp add: map_of_map_set)
      then show ?thesis using tfresh ne unfolding eq by simp
    next
      case False
      with m have old: "map_of (jobs q) k = Some b" unfolding eq by (simp add: map_of_map_set)
      then obtain j where j: "heap q b = Some j" "job_id j = k"
        using ih unfolding inv_heap_def by blast
      have tb: "tasks q b = None" and sb: "status j = StatusQueued \<or> status j = StatusProcessing"
        using assms(2) old j unfolding inv_registry_def by fastforce+
      have "b \<noteq> a" using j job False by auto
      moreover have "b \<noteq> next_addr q" using j fresh by auto
      ultimately show ?thesis using tb sb j unfolding eq by simp
    qed
  qed
qed

lemma inv_registry_addJob:
  assumes "inv q" "inv_registry q"
  shows "inv_registry (snd (addJob u s now rnd date q))"
proof -
  have ih: "inv_heap q" and it: "inv_tasks q" using assms(1) by (simp_all add: inv_def)
  have fresh: "heap q (next_addr q) = None"
    using ih unfolding inv_heap_def by (metis less_irrefl)
  have tfresh: "tasks q (next_addr q) = None"
  proof (cases "tasks q (next_addr q)")
    case (Some p)
    then show ?thesis using it fresh unfolding inv_tasks_def by fastforce
  qed simp
  show ?thesis
    unfolding inv_registry_def
  proof (intro allI impI)
    fix k b
    assume m: "map_of (jobs (snd (addJob u s now rnd date q))) k = Some b"
    show "tasks (snd (addJob u s now rnd date q)) b = None \<and>
          (\<exists>j. heap (snd (addJob u s now rnd date q)) b = Some j \<and>
               (status j = StatusQueued \<or> status j = StatusProcessing))"
    proof (cases "k = make_job_id now rnd")
      case True
      with m have "b = next_addr q" by (simp add: addJob_eq map_of_map_set)
      then show ?thesis using tfresh by (simp add: addJob_eq new_job_def)
    next
      case False
      with m have old: "map_of (jobs q) k = Some b" by (simp add: addJob_eq map_of_map_set)
      then have "tasks q b = None \<and> (\<exists>j. heap q b = Some j \<and>
          (status j = StatusQueued \<or> status j = StatusProcessing))"
        using assms(2) unfolding inv_registry_def by blast
      moreover from this have "b \<noteq> next_addr q" using fresh by auto
      ultimately show ?thesis by (simp add: addJob_eq)
    qed
  qed
qed

lemma inv_registry_frame [simp]: "inv_registry (q\<lparr>timers := t\<rparr>) = inv_registry q"
  by (simp add: inv_registry_def)

lemma inv_registry_step: "inv q \<Longrightarrow> inv_registry q \<Longrightarrow> inv_registry (step e q)"
  by (cases e) (simp_all add: inv_registry_addJob inv_registry_resume
      inv_registry_processNextJob)

lemma inv_registry_run: "inv_registry (run es (queue_with_limit n))"
proof (induction es rule: rev_induct)
  case Nil
  show ?case by (simp add: inv_registry_def queue_with_limit_def new_queue_def)
next
  case (snoc e es)
  then show ?case using inv_reachable[of es n] by (simp add: run_snoc inv_registry_step)
qed

text \<open>
  In every execution, no record that \<open>getJob\<close> returns is \<open>completed\<close> or \<open>failed\<close>:
  \<open>updateProgress\<close> has put a copy of the job into the registry before
  \<open>processNextJob\<close> assigns the final status to the object it holds.
\<close>

lemma registry_never_terminal:
  assumes "getJob (run es (queue_with_limit n)) k = Some j"
  shows "status j = StatusQueued \<or> status j = StatusProcessing"
  using assms inv_registry_run[of es n] unfolding inv_registry_def getJob_def
  by (fastforce split: option.splits)

subsection \<open>The registry after a job has ended\<close>

text \<open>
  C2. The property is that a job has exactly one of \<open>result\<close> and \<open>error\<close> set once its
  status is \<open>completed\<close> or \<open>failed\<close>, and neither while it is \<open>queued\<close> or
  \<open>processing\<close>. The record in the registry does not have it. In the execution
  \<open>plain_run\<close> a job with a URL that parses is submitted and runs through all its stages.
  The object that \<open>processNextJob\<close> holds ends \<open>completed\<close> with a result; the record that
  \<open>getJob\<close> returns for the identifier is the copy that the last \<open>updateProgress\<close>
  made: it has the result set while its status is \<open>processing\<close>, and no \<open>completedAt\<close>.
\<close>

theorem completed_job_registry_record:
  "map_option (\<lambda>j. (status j, result j, error j, completedAt j))
     (getJob (run plain_run (queue_with_limit 3)) ''job_1000_abc'') =
     Some (StatusProcessing, Some plain_run_result, None, None) \<and>
   map_option (\<lambda>j. (status j, result j, error j, completedAt j))
     (heap (run plain_run (queue_with_limit 3)) 0) =
     Some (StatusCompleted, Some plain_run_result, None, Some 9900)"
  by (simp add: plain_run_registry plain_run_object)

text \<open>
  C7. The property is that a job whose metadata resolution yields nothing reaches the
  status \<open>failed\<close> with a non-empty error, runs no further stage and never has a result.
  The record in the registry never gets there. In the execution \<open>failed_run\<close> a job whose
  URL does not parse is submitted, admitted and resumed twice, so that \<open>extractMetadata\<close>
  yields \<open>null\<close>. The object that \<open>processNextJob\<close> holds ends \<open>failed\<close> with the error
  message and without result, its activation is over and no further stage has written a
  snapshot; the record that \<open>getJob\<close> returns for the identifier still has status
  \<open>processing\<close> and no error.
\<close>

theorem failed_job_registry_record:
  "extractMetadata (env_bad 2900) ''not a url'' = None \<and>
   map_option (\<lambda>j. (status j, error j, result j))
     (getJob (run failed_run (queue_with_limit 3)) ''job_1000_abc'') =
     Some (StatusProcessing, None, None) \<and>
   map_option (\<lambda>j. (status j, error j, result j))
     (heap (run failed_run (queue_with_limit 3)) 0) =
     Some (StatusFailed, Some extract_error_message, None) \<and>
   progress_log (run failed_run (queue_with_limit 3)) =
     [(0, initial_progress), (0, snapshot StageAnalyzing 10 analyzing_message)] \<and>
   tasks (run failed_run (queue_with_limit 3)) 0 = None"
  by (simp add: failed_run_def eval_defs snapshot_def)

lemma overload_run_active:
  "activeJobs (run overload_run new_queue) = [''job_9450_b'', ''job_9460_c'', ''job_9470_d'']"
  by (simp add: overload_run_def eval_defs)

lemma overload_run_records:
  "map (\<lambda>j. (job_id j, status j)) (getAllJobs (run overload_run new_queue)) =
     [(''job_9470_d'', StatusProcessing), (''job_9460_c'', StatusProcessing),
      (''job_9450_b'', StatusProcessing), (''job_1000_a'', StatusProcessing)]"
  by (simp add: overload_run_def eval_defs getAllJobs_def job_values_def
      List.map_filter_simps)

lemma overload_run_object:
  "map_option status (heap (run overload_run new_queue) 0) = Some StatusCompleted"
  by (simp add: overload_run_def eval_defs)

text \<open>
  C1. The property is that the number of jobs whose status is \<open>processing\<close> never
  exceeds the limit. The guard of \<open>processNextJob\<close> keeps the active set within the limit
  (\<open>active_le_limit\<close>, \<open>dispatch_at_limit\<close>), but the records in the registry do not
  follow. In the execution \<open>overload_run\<close>, with the limit 3 of the class, one job runs to
  its end while three more are submitted; two of them are admitted at once and the third
  when the first job has ended. The active set then holds three identifiers, and four of
  the records that \<open>getAllJobs\<close> returns have status \<open>processing\<close>: the record of the job
  that ended is among them.
\<close>

theorem processing_records_exceed_limit:
  "maxConcurrentJobs (run overload_run new_queue) = 3 \<and>
   activeJobs (run overload_run new_queue) = [''job_9450_b'', ''job_9460_c'', ''job_9470_d''] \<and>
   map (\<lambda>j. (job_id j, status j)) (getAllJobs (run overload_run new_queue)) =
     [(''job_9470_d'', StatusProcessing), (''job_9460_c'', StatusProcessing),
      (''job_9450_b'', StatusProcessing), (''job_1000_a'', StatusProcessing)] \<and>
   map_option status (heap (run overload_run new_queue) 0) = Some StatusCompleted"
proof -
  have "maxConcurrentJobs (run overload_run new_queue) = 3"
    by (simp add: new_queue_def)
  then show ?thesis
    by (simp add: overload_run_active overload_run_records overload_run_object)
qed

subsection \<open>Identifiers\<close>

lemma decimal_digits_value:
  "foldl (\<lambda>v d. 10 * v + d) 0 (decimal_digits n acc) = foldl (\<lambda>v d. 10 * v + d) n acc"
proof (induction n acc rule: decimal_digits.induct)
  case (1 n acc)
  show ?case
  proof (cases "n < 10")
    case True
    then show ?thesis by (simp add: decimal_digits.simps[of n acc])
  next
    case False
    then show ?thesis using 1 by (simp add: decimal_digits.simps[of n acc])
  qed
qed

lemma decimal_digits_small:
  "\<forall>d \<in> set acc. d < 10 \<Longrightarrow> \<forall>d \<in> set (decimal_digits n acc). d < 10"
proof (induction n acc rule: decimal_digits.induct)
  case (1 n acc)
  show ?case
  proof (cases "n < 10")
    case True
    then show ?thesis using 1(2) by (simp add: decimal_digits.simps[of n acc])
  next
    case False
    then have eq: "decimal_digits n acc = decimal_digits (n div 10) (n mod 10 # acc)"
      by (subst decimal_digits.simps) simp
    have "\<forall>d \<in> set (n mod 10 # acc). d < 10" using 1(2) by simp
    from 1(1)[OF False this] show ?thesis unfolding eq .
  qed
qed

lemma digit_char_inj:
  assumes "d < 10" "d' < 10" "digit_char d = digit_char d'"
  shows "d = d'"
proof -
  have "distinct ''0123456789''" by simp
  then show ?thesis
    using assms nth_eq_iff_index_eq[of "''0123456789''" d d'] by (simp add: digit_char_def)
qed

lemma digit_char_not_underscore:
  assumes "d < 10"
  shows "digit_char d \<noteq> CHR ''_''"
proof -
  have "digit_char d \<in> set ''0123456789''"
    unfolding digit_char_def using assms by (intro nth_mem) simp
  then show ?thesis by auto
qed

lemma map_digit_char_inj:
  assumes "\<forall>d \<in> set ds. d < 10" "\<forall>d \<in> set ds'. d < 10" "map digit_char ds = map digit_char ds'"
  shows "ds = ds'"
  using assms
proof (induction ds arbitrary: ds')
  case Nil
  then show ?case by simp
next
  case (Cons d ds)
  then obtain e es where ds': "ds' = e # es" by (cases ds') auto
  with Cons.prems have "digit_char d = digit_char e" "map digit_char ds = map digit_char es"
    "d < 10" "e < 10" by simp_all
  then have "d = e" "ds = es"
    using digit_char_inj[of d e] Cons.IH[of es] Cons.prems ds' by simp_all
  then show ?case by (simp add: ds')
qed

lemma number_string_inj:
  assumes "number_string n = number_string n'"
  shows "n = n'"
proof -
  have "decimal_digits n [] = decimal_digits n' []"
    using assms decimal_digits_small[of "[]" n] decimal_digits_small[of "[]" n']
    unfolding number_string_def by (intro map_digit_char_inj) simp_all
  then have "foldl (\<lambda>v d. 10 * v + d) 0 (decimal_digits n []) =
             foldl (\<lambda>v d. 10 * v + d) 0 (decimal_digits n' [])" by simp
  then show ?thesis by (simp add: decimal_digits_value)
qed

lemma number_string_no_underscore: "CHR ''_'' \<notin> set (number_string n)"
proof
  assume "CHR ''_'' \<in> set (number_string n)"
  then obtain d where d: "d \<in> set (decimal_digits n [])" "digit_char d = CHR ''_''"
    by (auto simp: number_string_def)
  then have "d < 10" using decimal_digits_small[of "[]" n] by simp
  with d(2) digit_char_not_underscore show False by blast
qed

lemma split_at_first:
  assumes "c \<notin> set xs" "c \<notin> set xs'" "xs @ c # ys = xs' @ c # ys'"
  shows "xs = xs' \<and> ys = ys'"
  using assms
proof (induction xs arbitrary: xs')
  case Nil
  then show ?case by (cases xs') auto
next
  case (Cons x xs)
  then show ?case by (cases xs') auto
qed

lemma make_job_id_inj:
  "make_job_id now rnd = make_job_id now' rnd' \<longleftrightarrow> now = now' \<and> rnd = rnd'"
proof
  assume "make_job_id now rnd = make_job_id now' rnd'"
  then have "number_string now @ CHR ''_'' # rnd = number_string now' @ CHR ''_'' # rnd'"
    by (simp add: make_job_id_def)
  from split_at_first[OF number_string_no_underscore number_string_no_underscore this]
  show "now = now' \<and> rnd = rnd'" using number_string_inj by blast
qed simp

subsection \<open>Submission\<close>

lemma queued_after_submit:
  assumes "\<exists>j. getJob q k = Some j \<and> status j = StatusQueued"
  shows "\<exists>j. getJob (snd (addJob u s now rnd date q)) k = Some j \<and> status j = StatusQueued"
proof (cases "k = make_job_id now rnd")
  case True
  then show ?thesis using getJob_addJob[of u s now rnd date q]
    by (simp add: addJob_eq new_job_def)
next
  case False
  from assms obtain a j where a: "map_of (jobs q) k = Some a" "heap q a = Some j"
    "status j = StatusQueued"
    by (auto simp: getJob_def split: option.splits)
  show ?thesis
  proof (cases "a = next_addr q")
    case True
    with a False show ?thesis
      by (simp add: addJob_eq getJob_def map_of_map_set new_job_def)
  next
    case False
    with a \<open>k \<noteq> make_job_id now rnd\<close> show ?thesis
      by (simp add: addJob_eq getJob_def map_of_map_set)
  qed
qed

lemma set_map_filter:
  "y \<in> set (List.map_filter f xs) \<longleftrightarrow> (\<exists>x \<in> set xs. f x = Some y)"
  by (induction xs) (auto simp: List.map_filter_simps split: option.splits)

lemma running_idsI:
  assumes "inv q" "tasks q a = Some p" "heap q a = Some job"
  shows "job_id job \<in> set (running_ids q)"
proof -
  have "a < next_addr q" using assms(1,3) unfolding inv_def inv_heap_def by fastforce
  then have "a \<in> set [0..<next_addr q]" by simp
  moreover have "(if tasks q a = None then None else map_option job_id (heap q a)) =
      Some (job_id job)"
    using assms(2,3) by simp
  ultimately show ?thesis
    unfolding running_ids_def set_map_filter by blast
qed

lemma running_idsE:
  assumes "k \<in> set (running_ids q)"
  obtains a p job where "tasks q a = Some p" "heap q a = Some job" "job_id job = k"
proof -
  from assms obtain a where
    a: "(if tasks q a = None then None else map_option job_id (heap q a)) = Some k"
    unfolding running_ids_def set_map_filter by blast
  then have "tasks q a \<noteq> None" "map_option job_id (heap q a) = Some k"
    by (auto split: if_splits)
  then obtain p job where "tasks q a = Some p" "heap q a = Some job" "job_id job = k"
    by auto
  then show ?thesis by (rule that)
qed

lemma running_ids_empty: "tasks q = Map.empty \<Longrightarrow> running_ids q = []"
  by (simp add: running_ids_def List.map_filter_def)

text \<open>
  A segment of a job writes to the registry only under the identifier of the job.
\<close>

lemma processJob_step_registry_other:
  assumes "heap q a = Some job" "k \<noteq> job_id job"
  shows "map_of (jobs (result_state (processJob_step x a job p q))) k = map_of (jobs q) k"
  using assms
  by (cases p; simp add: stage_converting_def Let_def updateProgress_def map_of_map_set
        heap_modify heap_simulate_iteration split: option.splits sum.splits if_splits)

lemma getJob_resume_other:
  assumes "inv q" "k \<notin> set (running_ids q)"
  shows "getJob (resume x a q) k = getJob q k"
proof (cases "tasks q a")
  case None
  then show ?thesis by (simp add: resume_def)
next
  case (Some p)
  have ih: "inv_heap q" and it: "inv_tasks q" using assms(1) by (simp_all add: inv_def)
  obtain job where job: "heap q a = Some job"
    using it Some unfolding inv_tasks_def by blast
  have ne: "k \<noteq> job_id job"
    using assms(2) running_idsI[OF assms(1) Some job] by auto
  have eq: "resume x a q = settle x a (job_id job) (processJob_step x a job p q)"
    using Some job by (simp add: resume_def)
  have m: "map_of (jobs (resume x a q)) k = map_of (jobs q) k"
    by (simp add: eq processJob_step_registry_other[OF job ne])
  show ?thesis
  proof (cases "map_of (jobs q) k")
    case None
    with m show ?thesis by (simp add: getJob_def)
  next
    case (Some b)
    then obtain j where j: "heap q b = Some j" "job_id j = k"
      using ih unfolding inv_heap_def by blast
    then have "b \<noteq> a" "b < next_addr q"
      using job ne ih unfolding inv_heap_def by fastforce+
    then have "heap (resume x a q) b = heap q b" by (rule resume_heap_other)
    with m Some show ?thesis by (simp add: getJob_def)
  qed
qed

lemma getJob_addJob_other:
  assumes "inv q" "k \<noteq> make_job_id now rnd"
  shows "getJob (snd (addJob u s now rnd date q)) k = getJob q k"
proof (cases "map_of (jobs q) k")
  case None
  with assms(2) show ?thesis by (simp add: addJob_eq getJob_def map_of_map_set)
next
  case (Some b)
  then have "b < next_addr q" using assms(1) unfolding inv_def inv_heap_def by fastforce
  with Some assms(2) show ?thesis by (simp add: addJob_eq getJob_def map_of_map_set)
qed

lemma running_ids_resume:
  assumes "inv q" "k \<notin> set (running_ids q)"
  shows "k \<notin> set (running_ids (resume x a q))"
proof
  assume "k \<in> set (running_ids (resume x a q))"
  then obtain b p' j' where b: "tasks (resume x a q) b = Some p'"
    "heap (resume x a q) b = Some j'" "job_id j' = k"
    by (rule running_idsE)
  have ih: "inv_heap q" and it: "inv_tasks q" using assms(1) by (simp_all add: inv_def)
  show False
  proof (cases "tasks q a")
    case None
    then have "resume x a q = q" by (simp add: resume_def)
    with b running_idsI[OF assms(1), of b p' j'] assms(2) show False by simp
  next
    case (Some p)
    then obtain job where job: "pc_ok p" "heap q a = Some job"
      using it unfolding inv_tasks_def by blast
    show False
    proof (cases "b = a")
      case True
      from resume_self[OF ih Some job(2) job(1), of x] b True
      have "job_id job = k" by auto
      with running_idsI[OF assms(1) Some job(2)] assms(2) show False by simp
    next
      case False
      then have t: "tasks q b = Some p'" using b by (simp add: resume_tasks_other)
      then obtain j where j: "heap q b = Some j" using it unfolding inv_tasks_def by blast
      then have "b < next_addr q" using ih unfolding inv_heap_def by fastforce
      then have "heap (resume x a q) b = heap q b"
        using False by (rule resume_heap_other[rotated])
      with b t j running_idsI[OF assms(1) t, of j'] assms(2) show False by simp
    qed
  qed
qed

lemma running_ids_addJob:
  assumes "inv q" "k \<notin> set (running_ids q)"
  shows "k \<notin> set (running_ids (snd (addJob u s now rnd date q)))"
proof
  assume "k \<in> set (running_ids (snd (addJob u s now rnd date q)))"
  then obtain b p' j' where b: "tasks (snd (addJob u s now rnd date q)) b = Some p'"
    "heap (snd (addJob u s now rnd date q)) b = Some j'" "job_id j' = k"
    by (rule running_idsE)
  have ih: "inv_heap q" and it: "inv_tasks q" using assms(1) by (simp_all add: inv_def)
  from b(1) have t: "tasks q b = Some p'" by (simp add: addJob_eq)
  then obtain j where j: "heap q b = Some j" using it unfolding inv_tasks_def by blast
  then have "b \<noteq> next_addr q" using ih unfolding inv_heap_def by fastforce
  with b(2) have "heap q b = Some j'" by (simp add: addJob_eq)
  with t b(3) running_idsI[OF assms(1) t, of j'] assms(2) show False by simp
qed

text \<open>
  As long as no dispatch timer fires, a record that is \<open>queued\<close> under an identifier
  that no running job has stays \<open>queued\<close>, and it stays the same record if the identifier
  is not issued again.
\<close>

lemma queued_without_dispatch:
  assumes "Timer \<notin> set es" "inv q" "k \<notin> set (running_ids q)"
    and "\<exists>j. getJob q k = Some j \<and> status j = StatusQueued"
  shows "\<exists>j. getJob (run es q) k = Some j \<and> status j = StatusQueued"
  using assms
proof (induction es arbitrary: q)
  case Nil
  then show ?case by simp
next
  case (Cons e es)
  have nt: "Timer \<notin> set es" using Cons.prems(1) by simp
  have i: "inv (step e q)" using Cons.prems(2) by (rule inv_step)
  have r: "k \<notin> set (running_ids (step e q))"
    using Cons.prems(1,2,3) by (cases e) (simp_all add: running_ids_addJob running_ids_resume)
  have g: "\<exists>j. getJob (step e q) k = Some j \<and> status j = StatusQueued"
  proof (cases e)
    case (AddJob u s now rnd date)
    then show ?thesis using queued_after_submit[OF Cons.prems(4)] by simp
  next
    case Timer
    with Cons.prems(1) show ?thesis by simp
  next
    case (Resume a x)
    then show ?thesis using Cons.prems(2,3,4) by (simp add: getJob_resume_other)
  qed
  from Cons.IH[OF nt i r g] show ?case by (simp add: run_Cons)
qed

lemma same_without_dispatch:
  assumes "Timer \<notin> set es" "k \<notin> set (issued es)" "inv q" "k \<notin> set (running_ids q)"
  shows "getJob (run es q) k = getJob q k"
  using assms
proof (induction es arbitrary: q)
  case Nil
  then show ?case by simp
next
  case (Cons e es)
  have nt: "Timer \<notin> set es" using Cons.prems(1) by simp
  have ni: "k \<notin> set (issued es)" using Cons.prems(2) by (cases e) simp_all
  have i: "inv (step e q)" using Cons.prems(3) by (rule inv_step)
  have r: "k \<notin> set (running_ids (step e q))"
    using Cons.prems(1,3,4) by (cases e) (simp_all add: running_ids_addJob running_ids_resume)
  have g: "getJob (step e q) k = getJob q k"
  proof (cases e)
    case (AddJob u s now rnd date)
    then show ?thesis using Cons.prems(2,3) by (simp add: getJob_addJob_other)
  next
    case Timer
    with Cons.prems(1) show ?thesis by simp
  next
    case (Resume a x)
    then show ?thesis using Cons.prems(3,4) by (simp add: getJob_resume_other)
  qed
  from Cons.IH[OF nt ni i r] g show ?case by (simp add: run_Cons)
qed

text \<open>
  Before the first dispatch no job is running.
\<close>

lemma tasks_without_dispatch:
  assumes "Timer \<notin> set es" "tasks q = Map.empty"
  shows "tasks (run es q) = Map.empty"
  using assms
proof (induction es arbitrary: q)
  case Nil
  then show ?case by simp
next
  case (Cons e es)
  have "tasks (step e q) = Map.empty"
    using Cons.prems by (cases e) (simp_all add: addJob_eq resume_def)
  with Cons show ?case by (simp add: run_Cons)
qed

lemma busy_prefix_running:
  "running_ids (run busy_prefix (queue_with_limit 3)) = [''job_1000_abc'']"
  by (simp add: busy_prefix_def eval_defs running_ids_def List.map_filter_simps upt_rec
      numeral_2_eq_2[symmetric])

text \<open>
  The identifier is not always unique, and the record under it is not always \<open>queued\<close>
  before the next dispatch. Two calls of \<open>addJob\<close> that read the same clock value and
  draw the same suffix return the same identifier, and the registry then holds the second
  job only. In \<open>running_collision\<close> the job that got the identifier first is running
  when the second call is made; its next \<open>updateProgress\<close> puts a copy of itself under
  the identifier, so that the lookup returns a \<open>processing\<close> record of the first job
  although no dispatch has happened since the second call.
\<close>

theorem addJob_identifier_repeats:
  "fst (addJob sample_url plain_options 1000 ''abc'' 1000 new_queue) =
   fst (addJob second_url watermark_options 1000 ''abc'' 1000
          (snd (addJob sample_url plain_options 1000 ''abc'' 1000 new_queue))) \<and>
   map url (getAllJobs
     (snd (addJob second_url watermark_options 1000 ''abc'' 1000
          (snd (addJob sample_url plain_options 1000 ''abc'' 1000 new_queue))))) =
     [second_url] \<and>
   issued running_collision = [''job_1000_abc'', ''job_1000_abc''] \<and>
   map_option (\<lambda>j. (url j, status j))
     (getJob (run running_collision (queue_with_limit 3)) ''job_1000_abc'') =
     Some (sample_url, StatusProcessing)"
  by (simp add: addJob_eq new_queue_def getAllJobs_def job_values_def List.map_filter_simps
      new_job_def running_collision_def eval_defs)

text \<open>
  C5 (amended). \<open>addJob\<close> always returns: it creates a record with status \<open>queued\<close> and
  percent 0, stores it under the identifier \<open>job_<clock>_<suffix>\<close> it returns, and only
  schedules a dispatch: no activation is started and the active set is unchanged. In
  every execution, a lookup of the identifier returns a \<open>queued\<close> record as long as no
  dispatch timer fires after the call, whatever else happens (further submissions,
  resumptions of running jobs), provided that no dispatch has happened before the call
  or no job that is running at the call has the same identifier; the record is the one
  created if, moreover, the identifier is not issued again. Two identifiers are equal
  exactly when both the clock reading and the random suffix are equal.
\<close>

theorem addJob_creates_queued_record:
  "fst (addJob u s now rnd date q) = make_job_id now rnd \<and>
   getJob (snd (addJob u s now rnd date q)) (make_job_id now rnd) =
     Some (new_job u s now rnd date) \<and>
   status (new_job u s now rnd date) = StatusQueued \<and>
   percent (progress (new_job u s now rnd date)) = 0 \<and>
   tasks (snd (addJob u s now rnd date q)) = tasks q \<and>
   activeJobs (snd (addJob u s now rnd date q)) = activeJobs q \<and>
   timers (snd (addJob u s now rnd date q)) = Suc (timers q) \<and>
   (q = run es0 (queue_with_limit n) \<and> Timer \<notin> set es \<and>
    (Timer \<in> set es0 \<longrightarrow> make_job_id now rnd \<notin> set (running_ids q)) \<longrightarrow>
      (\<exists>j. getJob (run es (snd (addJob u s now rnd date q))) (make_job_id now rnd) = Some j \<and>
           status j = StatusQueued) \<and>
      (make_job_id now rnd \<notin> set (issued es) \<longrightarrow>
         getJob (run es (snd (addJob u s now rnd date q))) (make_job_id now rnd) =
           Some (new_job u s now rnd date))) \<and>
   (make_job_id now' rnd' = make_job_id now rnd \<longleftrightarrow> now' = now \<and> rnd' = rnd)"
proof -
  let ?k = "make_job_id now rnd"
  let ?q = "snd (addJob u s now rnd date q)"
  have g: "getJob ?q ?k = Some (new_job u s now rnd date)"
    using getJob_addJob[of u s now rnd date q] by (simp add: addJob_eq)
  have later: "(\<exists>j. getJob (run es ?q) ?k = Some j \<and> status j = StatusQueued) \<and>
      (?k \<notin> set (issued es) \<longrightarrow> getJob (run es ?q) ?k = Some (new_job u s now rnd date))"
    if q: "q = run es0 (queue_with_limit n)" and nt: "Timer \<notin> set es"
      and r: "Timer \<in> set es0 \<longrightarrow> ?k \<notin> set (running_ids q)"
  proof -
    have i: "inv q" using q by (simp add: inv_reachable)
    have "?k \<notin> set (running_ids q)"
    proof (cases "Timer \<in> set es0")
      case True
      with r show ?thesis by simp
    next
      case False
      then have "tasks q = Map.empty"
        unfolding q
        by (intro tasks_without_dispatch) (simp_all add: queue_with_limit_def new_queue_def)
      then show ?thesis by (simp add: running_ids_empty)
    qed
    then have r': "?k \<notin> set (running_ids ?q)" using i by (rule running_ids_addJob[rotated])
    have i': "inv ?q" using i by (rule inv_addJob)
    have "\<exists>j. getJob ?q ?k = Some j \<and> status j = StatusQueued"
      using g by (simp add: new_job_def)
    from queued_without_dispatch[OF nt i' r' this] same_without_dispatch[OF nt _ i' r'] g
    show ?thesis by simp
  qed
  have 1: "fst (addJob u s now rnd date q) = ?k"
    and 2: "tasks ?q = tasks q" "activeJobs ?q = activeJobs q" "timers ?q = Suc (timers q)"
    by (simp_all add: addJob_eq)
  have 3: "status (new_job u s now rnd date) = StatusQueued"
    "percent (progress (new_job u s now rnd date)) = 0"
    by (simp_all add: new_job_def initial_progress_def)
  note 4 = make_job_id_inj[of now' rnd' now rnd]
  from 1 g 3 2 later 4 show ?thesis by blast
qed

theorem addJob_creates_queued_record_witness:
  "Timer \<in> set busy_prefix \<and> Timer \<notin> set busy_suffix \<and>
   running_ids (run busy_prefix (queue_with_limit 3)) = [''job_1000_abc''] \<and>
   make_job_id 2850 ''xyz'' = ''job_2850_xyz'' \<and>
   make_job_id 2850 ''xyz'' \<notin> set (issued busy_suffix) \<and>
   getJob (run busy_suffix
       (snd (addJob second_url watermark_options 2850 ''xyz'' 2850
          (run busy_prefix (queue_with_limit 3)))))
     (make_job_id 2850 ''xyz'') =
     Some (new_job second_url watermark_options 2850 ''xyz'' 2850) \<and>
   make_job_id 1000 ''abc'' \<noteq> make_job_id 2850 ''xyz''"
proof -
  have 1: "Timer \<in> set busy_prefix" "Timer \<notin> set busy_suffix"
    by (simp_all add: busy_prefix_def busy_suffix_def)
  have k: "make_job_id 2850 ''xyz'' = ''job_2850_xyz''"
    by (simp add: make_job_id_def number_string_def decimal_digits.simps digit_char_def)
  have 2: "make_job_id 2850 ''xyz'' \<notin> set (running_ids (run busy_prefix (queue_with_limit 3)))"
    by (simp add: busy_prefix_running k)
  have 3: "make_job_id 2850 ''xyz'' \<notin> set (issued busy_suffix)"
    by (simp add: busy_suffix_def k make_job_id_def number_string_def decimal_digits.simps
        digit_char_def)
  from addJob_creates_queued_record[of second_url watermark_options 2850 "''xyz''" 2850
      "run busy_prefix (queue_with_limit 3)" busy_prefix 3 busy_suffix 1000 "''abc''"] 1 2 3
  have "getJob (run busy_suffix
       (snd (addJob second_url watermark_options 2850 ''xyz'' 2850
          (run busy_prefix (queue_with_limit 3)))))
     (make_job_id 2850 ''xyz'') =
     Some (new_job second_url watermark_options 2850 ''xyz'' 2850) \<and>
   make_job_id 1000 ''abc'' \<noteq> make_job_id 2850 ''xyz''"
    by simp
  with 1 3 k show ?thesis by (simp add: busy_prefix_running)
qed

subsection \<open>The download stage\<close>

lemma download_snapshot_fields:
  "stage (download_snapshot 30 60 i) = StageDownloading"
  "percent (download_snapshot 30 60 i) = 30 + 3 * real i"
  "message (download_snapshot 30 60 i) = substep_message (30 + 3 * real i)"
  "estimatedTimeRemaining (download_snapshot 30 60 i) = Some ((10 - real i) * 0.5)"
  by (simp_all add: download_snapshot_def Let_def)

lemma download_run_registry:
  "getJob (run download_run (queue_with_limit 3)) ''job_1000_abc'' =
     Some \<lparr>job_id = ''job_1000_abc'', url = sample_url, settings = plain_options,
           status = StatusProcessing,
           progress = snapshot StageDownloading 30 downloading_message,
           result = None, error = None, createdAt = 1000, completedAt = None\<rparr>"
  by (simp add: download_run_def download_prefix_def eval_defs snapshot_def)

lemma download_run_object:
  "heap (run download_run (queue_with_limit 3)) 0 =
     Some \<lparr>job_id = ''job_1000_abc'', url = sample_url, settings = plain_options,
           status = StatusProcessing,
           progress = download_snapshot 30 60 2,
           result = None, error = None, createdAt = 1000, completedAt = None\<rparr>"
  by (simp add: download_run_def download_prefix_def eval_defs snapshot_def
      numeral_2_eq_2[symmetric])

text \<open>
  The sub-steps of the download are not as the specification has them, in two respects.
  Their percentages are not the ten equal steps from 10 towards 60: in \<open>plain_run\<close> the
  stage starts with a snapshot at 30 and its sub-steps go from 30 to 57. And they are not
  reported: \<open>simulateDownloadProgress\<close> assigns each sub-step to the \<open>progress\<close> of the
  job that \<open>processJob\<close> holds, without the \<open>this.jobs.set\<close> of \<open>updateProgress\<close>. In
  \<open>download_run\<close>, after the third sub-step, that job shows 36 percent and an estimate of
  4 seconds, while \<open>getJob\<close> and the status route still show the snapshot at 30 percent
  that opened the stage, without an estimate.
\<close>

theorem download_substeps_differ:
  "map percent (filter (\<lambda>w. stage w = StageDownloading)
     (writes_of 0 (progress_log (run plain_run (queue_with_limit 3))))) =
     [30, 30, 33, 36, 39, 42, 45, 48, 51, 54, 57] \<and>
   map spec_substep_percent [0, 1, 2, 3, 4, 5, 6, 7, 8, 9] =
     [10, 15, 20, 25, 30, 35, 40, 45, 50, 55] \<and>
   map_option (\<lambda>j. (stage (progress j), percent (progress j),
                     estimatedTimeRemaining (progress j)))
     (heap (run download_run (queue_with_limit 3)) 0) =
     Some (StageDownloading, 36, Some 4) \<and>
   map_option (\<lambda>j. (stage (progress j), percent (progress j),
                     estimatedTimeRemaining (progress j)))
     (getJob (run download_run (queue_with_limit 3)) ''job_1000_abc'') =
     Some (StageDownloading, 30, None) \<and>
   status_GET (Some ''job_1000_abc'') (run download_run (queue_with_limit 3)) =
     Http200 \<lparr>resp_id = ''job_1000_abc'', resp_status = StatusProcessing,
              resp_progress = snapshot StageDownloading 30 downloading_message,
              resp_createdAt = 1000, resp_completedAt = None, resp_error = None,
              resp_result = None\<rparr>"
proof -
  have 1: "map percent (filter (\<lambda>w. stage w = StageDownloading)
     (writes_of 0 (progress_log (run plain_run (queue_with_limit 3))))) =
     [30, 30, 33, 36, 39, 42, 45, 48, 51, 54, 57]"
    by (simp add: plain_run_log plain_run_writes_def snapshot_def initial_progress_def
      download_snapshot_def Let_def writes_of_def)
  have 2: "map spec_substep_percent [0, 1, 2, 3, 4, 5, 6, 7, 8, 9] =
     [10, 15, 20, 25, 30, 35, 40, 45, 50, 55]"
    by (simp add: spec_substep_percent_def)
  have 3: "map_option (\<lambda>j. (stage (progress j), percent (progress j),
                     estimatedTimeRemaining (progress j)))
     (heap (run download_run (queue_with_limit 3)) 0) =
     Some (StageDownloading, 36, Some 4)"
    by (simp add: download_run_object download_snapshot_def Let_def)
  have 4: "map_option (\<lambda>j. (stage (progress j), percent (progress j),
                     estimatedTimeRemaining (progress j)))
     (getJob (run download_run (queue_with_limit 3)) ''job_1000_abc'') =
     Some (StageDownloading, 30, None)"
    by (simp add: download_run_registry snapshot_def)
  have 5: "status_GET (Some ''job_1000_abc'') (run download_run (queue_with_limit 3)) =
     Http200 \<lparr>resp_id = ''job_1000_abc'', resp_status = StatusProcessing,
              resp_progress = snapshot StageDownloading 30 downloading_message,
              resp_createdAt = 1000, resp_completedAt = None, resp_error = None,
              resp_result = None\<rparr>"
    by (simp add: status_GET_def download_run_registry)
  from 1 2 3 4 5 show ?thesis by blast
qed

text \<open>
  C6 (amended). In every execution, the \<open>downloading\<close> stage of a job starts with a
  snapshot at 30 percent and is followed by exactly ten sub-step snapshots, which
  \<open>processJob\<close> assigns to the \<open>progress\<close> field of the job it executes: the segment
  that gets the metadata writes sub-step 0, each resumption inside the loop writes the
  next sub-step up to sub-step 9, and the resumption after sub-step 9 writes a snapshot of
  another stage. Sub-step \<open>i\<close> has stage \<open>downloading\<close>, percent \<open>30 + 3 i\<close> (equal
  steps of a tenth of the range from 30 to 60, from 30 to 57) and an estimated time
  remaining of \<open>0.5 (10 - i)\<close> seconds, proportional to the number of sub-steps not yet
  finished. What \<open>getJob\<close> shows meanwhile is not part of the statement.
\<close>

theorem download_substeps:
  assumes "q = run es (queue_with_limit n)"
    and "tasks q a = Some p"
  shows "(\<exists>job. heap q a = Some job \<and>
           (p = AwaitExtract \<longrightarrow> (\<forall>m. extractMetadata x (url job) = Some m \<longrightarrow>
              tasks (resume x a q) a = Some (AwaitDownload m 30 60 0) \<and>
              progress_log (resume x a q) =
                progress_log q @ [(a, snapshot StageDownloading 30 downloading_message),
                                  (a, download_snapshot 30 60 0)] \<and>
              map_option progress (heap (resume x a q) a) =
                Some (download_snapshot 30 60 0)))) \<and>
         (\<forall>m s e i. p = AwaitDownload m s e i \<longrightarrow>
            s = 30 \<and> e = 60 \<and> i < 10 \<and>
            (i < 9 \<longrightarrow>
               tasks (resume x a q) a = Some (AwaitDownload m 30 60 (Suc i)) \<and>
               progress_log (resume x a q) =
                 progress_log q @ [(a, download_snapshot 30 60 (Suc i))] \<and>
               map_option progress (heap (resume x a q) a) =
                 Some (download_snapshot 30 60 (Suc i))) \<and>
            (i = 9 \<longrightarrow>
               (\<exists>w. progress_log (resume x a q) = progress_log q @ [(a, w)] \<and>
                    stage w \<noteq> StageDownloading))) \<and>
         (\<forall>i. stage (download_snapshot 30 60 i) = StageDownloading \<and>
              percent (download_snapshot 30 60 i) = 30 + 3 * real i \<and>
              estimatedTimeRemaining (download_snapshot 30 60 i) = Some ((10 - real i) * 0.5))"
proof -
  have i: "inv q" using assms(1) by (simp add: inv_reachable)
  then have ih: "inv_heap q" and it: "inv_tasks q" by (simp_all add: inv_def)
  obtain job where ok: "pc_ok p" and job: "heap q a = Some job"
    using it assms(2) unfolding inv_tasks_def by blast
  have ne: "a \<noteq> next_addr q" using ih job unfolding inv_heap_def by fastforce
  note log = resume_log[OF ih assms(2) job, of x]
  have eq: "resume x a q = settle x a (job_id job) (processJob_step x a job p q)"
    using assms(2) job by (simp add: resume_def)
  have obj: "map_option progress (heap (resume x a q) a) =
      Some (last_progress (progress job) (segment_writes x job p))"
    using resume_self[OF ih assms(2) job ok, of x] by auto
  have 1: "tasks (resume x a q) a = Some (AwaitDownload m 30 60 0) \<and>
           progress_log (resume x a q) =
             progress_log q @ [(a, snapshot StageDownloading 30 downloading_message),
                               (a, download_snapshot 30 60 0)] \<and>
           map_option progress (heap (resume x a q) a) = Some (download_snapshot 30 60 0)"
    if "p = AwaitExtract" "extractMetadata x (url job) = Some m" for m
    using that log obj by (simp add: eq last_progress_def)
  have 2: "s = 30 \<and> e = 60 \<and> i < 10 \<and>
            (i < 9 \<longrightarrow>
               tasks (resume x a q) a = Some (AwaitDownload m 30 60 (Suc i)) \<and>
               progress_log (resume x a q) =
                 progress_log q @ [(a, download_snapshot 30 60 (Suc i))] \<and>
               map_option progress (heap (resume x a q) a) =
                 Some (download_snapshot 30 60 (Suc i))) \<and>
            (i = 9 \<longrightarrow>
               (\<exists>w. progress_log (resume x a q) = progress_log q @ [(a, w)] \<and>
                    stage w \<noteq> StageDownloading))"
    if "p = AwaitDownload m s e i" for m s e i
    using that ok log obj
    by (auto simp: eq stage_converting_def snapshot_def last_progress_def)
  have 3: "\<forall>i. stage (download_snapshot 30 60 i) = StageDownloading \<and>
              percent (download_snapshot 30 60 i) = 30 + 3 * real i \<and>
              estimatedTimeRemaining (download_snapshot 30 60 i) = Some ((10 - real i) * 0.5)"
    by (simp add: download_snapshot_fields)
  from job 1 2 3 show ?thesis by blast
qed

theorem download_substeps_witness:
  "tasks (run download_prefix (queue_with_limit 3)) 0 =
     Some (AwaitDownload sample_metadata 30 60 0) \<and>
   tasks (resume (env_ok 3400) 0 (run download_prefix (queue_with_limit 3))) 0 =
     Some (AwaitDownload sample_metadata 30 60 1) \<and>
   progress_log (resume (env_ok 3400) 0 (run download_prefix (queue_with_limit 3))) =
     progress_log (run download_prefix (queue_with_limit 3)) @ [(0, download_snapshot 30 60 1)] \<and>
   map_option progress
     (heap (resume (env_ok 3400) 0 (run download_prefix (queue_with_limit 3))) 0) =
     Some (download_snapshot 30 60 1) \<and>
   percent (download_snapshot 30 60 1) = 33 \<and>
   estimatedTimeRemaining (download_snapshot 30 60 1) = Some 4.5"
proof -
  have t: "tasks (run download_prefix (queue_with_limit 3)) 0 =
     Some (AwaitDownload sample_metadata 30 60 0)"
    by (simp add: download_prefix_def eval_defs)
  from download_substeps[OF refl t, of "env_ok 3400"] t
  show ?thesis by simp
qed

end
